theory Spec2Isabelle
  imports Main "HOL-Library.Multiset" "HOL-Library.Sublist"
begin

section \<open>The board of \<open>a5.py\<close>\<close>

text \<open>
  A square of the grid holds either the integer that was assigned to it or the Python list
  of the digits still possible there. Python integers are unbounded, so digits are \<open>int\<close>.
\<close>

datatype cell = Assigned int | Candidates "int list"

text \<open>
  \<open>Board.size\<close> is set to 9 by the constructor and written nowhere else, so it is a
  constant here. \<open>rows\<close> is the list of row lists, \<open>num_nums_placed\<close> the counter.
\<close>

definition board_size :: nat where
  "board_size = 9"

record board =
  num_nums_placed :: int
  rows :: "cell list list"

datatype error = IndexError | TypeError

text \<open>
  \<open>remove_if_exists(lst, elem)\<close>: when \<open>lst\<close> is a list containing \<open>elem\<close>, its first
  occurrence is removed in place. The function returns the content of the object afterwards.
\<close>

fun remove_if_exists :: "cell \<Rightarrow> int \<Rightarrow> cell" where
  "remove_if_exists (Candidates lst) elem =
     (if elem \<in> set lst then Candidates (remove1 elem lst) else Candidates lst)"
| "remove_if_exists (Assigned n) elem = Assigned n"

text \<open>\<open>Board.__init__\<close>: nine rows of nine lists \<open>[1, ..., 9]\<close>, nothing placed.\<close>

definition Board_init :: board where
  "Board_init =
     \<lparr> num_nums_placed = 0,
       rows = map (\<lambda>r. map (\<lambda>c. Candidates (map int [1..<10])) [0..<board_size])
                  [0..<board_size] \<rparr>"

text \<open>
  \<open>failure_test\<close>: the two nested loops with their early \<open>return True\<close>. The test
  \<open>cell == []\<close> is false for an integer and true for the empty list only.
\<close>

fun failure_test_row :: "cell list \<Rightarrow> bool" where
  "failure_test_row [] = False"
| "failure_test_row (cell # row) = (if cell = Candidates [] then True else failure_test_row row)"

fun failure_test_rows :: "cell list list \<Rightarrow> bool" where
  "failure_test_rows [] = False"
| "failure_test_rows (row # rest) = (if failure_test_row row then True else failure_test_rows rest)"

definition failure_test :: "board \<Rightarrow> bool" where
  "failure_test b = failure_test_rows (rows b)"

text \<open>\<open>goal_test\<close>: the counter against \<open>size * size\<close>.\<close>

definition goal_test :: "board \<Rightarrow> bool" where
  "goal_test b = (num_nums_placed b = int (board_size * board_size))"

text \<open>
  Reading and writing \<open>self.rows[r][c]\<close>. Indices are natural numbers: every caller in the
  program passes values of \<open>range(9)\<close> or clue coordinates in \<open>[0, 9)\<close>. An index at or
  beyond the length of a list raises \<open>IndexError\<close>, first for the row, then for the column.
\<close>

definition get_cell :: "cell list list \<Rightarrow> nat \<Rightarrow> nat \<Rightarrow> error + cell" where
  "get_cell g r c =
     (if r < length g then
        (if c < length (g ! r) then Inr (g ! r ! c) else Inl IndexError)
      else Inl IndexError)"

definition set_cell :: "cell list list \<Rightarrow> nat \<Rightarrow> nat \<Rightarrow> cell \<Rightarrow> error + cell list list" where
  "set_cell g r c x =
     (if r < length g then
        (if c < length (g ! r) then Inr (g[r := (g ! r)[c := x]]) else Inl IndexError)
      else Inl IndexError)"

text \<open>
  A Python \<open>for\<close> loop whose body may raise: the state is threaded through the elements
  in order and the first error ends the loop.
\<close>

fun for_each :: "('a \<Rightarrow> 's \<Rightarrow> error + 's) \<Rightarrow> 'a list \<Rightarrow> 's \<Rightarrow> error + 's" where
  "for_each body [] s = Inr s"
| "for_each body (x # xs) s =
     (case body x s of Inl e \<Rightarrow> Inl e | Inr s' \<Rightarrow> for_each body xs s')"

text \<open>
  \<open>subgrid_coordinates\<close>: the top-left corner by floor division, then the 3x3 block,
  row by row.
\<close>

definition subgrid_coordinates :: "nat \<Rightarrow> nat \<Rightarrow> (nat \<times> nat) list" where
  "subgrid_coordinates row col =
     (let top_r = (row div 3) * 3; left_c = (col div 3) * 3
      in concat (map (\<lambda>dr. map (\<lambda>dc. (top_r + dr, left_c + dc)) [0..<3]) [0..<3]))"

text \<open>
  One call \<open>remove_if_exists(self.rows[r][c], assignment)\<close> of \<open>update\<close>: the square is
  read, and the list object found there is changed in place.
\<close>

definition eliminate :: "int \<Rightarrow> nat \<times> nat \<Rightarrow> cell list list \<Rightarrow> error + cell list list" where
  "eliminate assignment rc g =
     (case get_cell g (fst rc) (snd rc) of
        Inl e \<Rightarrow> Inl e
      | Inr x \<Rightarrow> set_cell g (fst rc) (snd rc) (remove_if_exists x assignment))"

text \<open>
  \<open>Board.update\<close>: the square is overwritten with the integer, the counter is incremented,
  then the value is eliminated along the column, along the row and in the subgrid, in
  that order. An \<open>IndexError\<close> of any access is the result of the call.
\<close>

definition update :: "board \<Rightarrow> nat \<Rightarrow> nat \<Rightarrow> int \<Rightarrow> error + board" where
  "update b row column assignment =
     (case set_cell (rows b) row column (Assigned assignment) of
        Inl e \<Rightarrow> Inl e
      | Inr g0 \<Rightarrow>
     (case for_each (\<lambda>r. eliminate assignment (r, column)) [0..<board_size] g0 of
        Inl e \<Rightarrow> Inl e
      | Inr g1 \<Rightarrow>
     (case for_each (\<lambda>c. eliminate assignment (row, c)) [0..<board_size] g1 of
        Inl e \<Rightarrow> Inl e
      | Inr g2 \<Rightarrow>
     (case for_each (eliminate assignment) (subgrid_coordinates row column) g2 of
        Inl e \<Rightarrow> Inl e
      | Inr g3 \<Rightarrow> Inr \<lparr> num_nums_placed = num_nums_placed b + 1, rows = g3 \<rparr>))))"

text \<open>
  A run of \<open>update\<close> calls on one board, as the script's \<open>for mv in moves: b.update(*mv)\<close>.
\<close>

definition updates :: "(nat \<times> nat \<times> int) list \<Rightarrow> board \<Rightarrow> error + board" where
  "updates moves b = for_each (\<lambda>(r, c, v) b'. update b' r c v) moves b"

text \<open>
  \<open>find_most_constrained_cell\<close>: the loop state is \<open>(best_len, best_r, best_c)\<close>, starting
  at \<open>(10, 0, 0)\<close>; a candidate list strictly shorter than \<open>best_len\<close> replaces it.
\<close>

definition consider_cell :: "cell \<Rightarrow> nat \<Rightarrow> nat \<Rightarrow> nat \<times> nat \<times> nat \<Rightarrow> nat \<times> nat \<times> nat" where
  "consider_cell cell r c best =
     (case cell of
        Candidates lst \<Rightarrow> (let ln = length lst in if ln < fst best then (ln, r, c) else best)
      | Assigned n \<Rightarrow> best)"

definition scan_row :: "cell list list \<Rightarrow> nat \<Rightarrow> nat \<times> nat \<times> nat \<Rightarrow> error + nat \<times> nat \<times> nat" where
  "scan_row g r best =
     for_each (\<lambda>c st. case get_cell g r c of
                         Inl e \<Rightarrow> Inl e
                       | Inr cell \<Rightarrow> Inr (consider_cell cell r c st))
              [0..<board_size] best"

definition find_most_constrained_cell :: "board \<Rightarrow> error + nat \<times> nat" where
  "find_most_constrained_cell b =
     (case for_each (scan_row (rows b)) [0..<board_size] (10, 0, 0) of
        Inl e \<Rightarrow> Inl e
      | Inr (best_len, best_r, best_c) \<Rightarrow> Inr (best_r, best_c))"

text \<open>
  The shape the constructor gives the grid, and what the squares of a board hold: an
  integer, or a sublist of \<open>[1, ..., 9]\<close> (the spec's set of candidate digits).
\<close>

definition grid9 :: "cell list list \<Rightarrow> bool" where
  "grid9 g \<longleftrightarrow> length g = board_size \<and> (\<forall>row \<in> set g. length row = board_size)"

fun cell_ok :: "cell \<Rightarrow> bool" where
  "cell_ok (Assigned n) = True"
| "cell_ok (Candidates lst) = subseq lst (map int [1..<10])"

definition wf_board :: "board \<Rightarrow> bool" where
  "wf_board b \<longleftrightarrow> grid9 (rows b) \<and> (\<forall>row \<in> set (rows b). \<forall>x \<in> set row. cell_ok x)"

text \<open>Two squares are peers when they share the row, the column or the 3x3 subgrid.\<close>

definition peer :: "nat \<times> nat \<Rightarrow> nat \<times> nat \<Rightarrow> bool" where
  "peer p q \<longleftrightarrow>
     fst p = fst q \<or> snd p = snd q
     \<or> (fst p div 3 = fst q div 3 \<and> snd p div 3 = snd q div 3)"

text \<open>The squares \<open>update\<close> visits after the assignment, in the order of its three loops.\<close>

definition peers_list :: "nat \<Rightarrow> nat \<Rightarrow> (nat \<times> nat) list" where
  "peers_list row col =
     map (\<lambda>r. (r, col)) [0..<board_size] @ map (\<lambda>c. (row, c)) [0..<board_size]
     @ subgrid_coordinates row col"

section \<open>Failure and goal tests\<close>

lemma failure_test_row_iff: "failure_test_row row \<longleftrightarrow> Candidates [] \<in> set row"
  by (induction row) auto

lemma failure_test_rows_iff:
  "failure_test_rows rs \<longleftrightarrow> (\<exists>row \<in> set rs. Candidates [] \<in> set row)"
  by (induction rs) (auto simp: failure_test_row_iff)

text \<open>
  C6. For every board, \<open>failure_test\<close> is true if and only if at least one cell of the
  grid is an empty candidate list.
\<close>

theorem C6_failure_test_iff_empty_candidates:
  "failure_test b \<longleftrightarrow> (\<exists>row \<in> set (rows b). \<exists>cell \<in> set row. cell = Candidates [])"
  by (simp add: failure_test_def failure_test_rows_iff)

theorem C6_witness:
  "failure_test \<lparr>num_nums_placed = 0, rows = [[Assigned 1, Candidates [2]], [Candidates []]]\<rparr>
   \<and> \<not> failure_test \<lparr>num_nums_placed = 0, rows = [[Assigned 1, Candidates [2]]]\<rparr>"
  using C6_failure_test_iff_empty_candidates
          [of "\<lparr>num_nums_placed = 0, rows = [[Assigned 1, Candidates [2]], [Candidates []]]\<rparr>"]
        C6_failure_test_iff_empty_candidates
          [of "\<lparr>num_nums_placed = 0, rows = [[Assigned 1, Candidates [2]]]\<rparr>"]
  by simp

text \<open>
  C7. For every board, \<open>goal_test\<close> is true if and only if the counter equals 81. Nothing
  of the grid is inspected: the fresh board, on which every square is still a candidate
  list, tests as solved once its counter is set to 81.
\<close>

theorem C7_goal_test_counter_only:
  "(\<forall>b. goal_test b \<longleftrightarrow> num_nums_placed b = 81)
   \<and> goal_test (Board_init\<lparr>num_nums_placed := 81\<rparr>)
   \<and> (\<forall>row \<in> set (rows (Board_init\<lparr>num_nums_placed := 81\<rparr>)).
        \<forall>cell \<in> set row. \<exists>lst. cell = Candidates lst)"
  by (auto simp: goal_test_def board_size_def Board_init_def)

theorem C7_witness:
  "goal_test \<lparr>num_nums_placed = 81, rows = []\<rparr>
   \<and> \<not> goal_test \<lparr>num_nums_placed = 80, rows = []\<rparr>"
  using C7_goal_test_counter_only by simp

section \<open>What \<open>update\<close> does to a 9x9 grid\<close>


lemma for_each_append:
  "for_each body (xs @ ys) s =
     (case for_each body xs s of Inl e \<Rightarrow> Inl e | Inr s' \<Rightarrow> for_each body ys s')"
  by (induction xs arbitrary: s) (auto split: sum.splits)

lemma for_each_map: "for_each (\<lambda>x. body (h x)) xs s = for_each body (map h xs) s"
  by (induction xs arbitrary: s) (auto split: sum.splits)

lemma update_peers_list:
  "update b row column v =
     (case set_cell (rows b) row column (Assigned v) of
        Inl e \<Rightarrow> Inl e
      | Inr g0 \<Rightarrow>
        (case for_each (eliminate v) (peers_list row column) g0 of
           Inl e \<Rightarrow> Inl e
         | Inr g3 \<Rightarrow> Inr \<lparr> num_nums_placed = num_nums_placed b + 1, rows = g3 \<rparr>))"
  unfolding update_def peers_list_def for_each_append
  by (simp add: for_each_map [where body = "eliminate v", symmetric] split: sum.splits)

lemma grid9_nth: "grid9 g \<Longrightarrow> i < board_size \<Longrightarrow> length (g ! i) = board_size"
  by (simp add: grid9_def)

lemma grid9_set: "grid9 g \<Longrightarrow> r < board_size \<Longrightarrow> c < board_size \<Longrightarrow> grid9 (g[r := (g ! r)[c := x]])"
  by (auto simp: grid9_def dest!: set_update_subset_insert [THEN subsetD])

lemma nth_grid_set:
  "grid9 g \<Longrightarrow> r < board_size \<Longrightarrow> c < board_size \<Longrightarrow> i < board_size \<Longrightarrow> j < board_size \<Longrightarrow>
   g[r := (g ! r)[c := x]] ! i ! j = (if (i, j) = (r, c) then x else g ! i ! j)"
  by (auto simp: grid9_def nth_list_update)

lemma get_cell_grid9:
  "grid9 g \<Longrightarrow> r < board_size \<Longrightarrow> c < board_size \<Longrightarrow> get_cell g r c = Inr (g ! r ! c)"
  by (simp add: get_cell_def grid9_def)

lemma set_cell_grid9:
  "grid9 g \<Longrightarrow> r < board_size \<Longrightarrow> c < board_size \<Longrightarrow>
   set_cell g r c x = Inr (g[r := (g ! r)[c := x]])"
  by (simp add: set_cell_def grid9_def)

lemma eliminate_grid9:
  "grid9 g \<Longrightarrow> r < board_size \<Longrightarrow> c < board_size \<Longrightarrow>
   eliminate v (r, c) g = Inr (g[r := (g ! r)[c := remove_if_exists (g ! r ! c) v]])"
  by (simp add: eliminate_def get_cell_grid9 set_cell_grid9)

lemma for_each_eliminate:
  assumes "grid9 g" and "\<forall>(i, j) \<in> set coords. i < board_size \<and> j < board_size"
  shows "\<exists>g'. for_each (eliminate v) coords g = Inr g' \<and> grid9 g'
            \<and> (\<forall>i < board_size. \<forall>j < board_size.
                 g' ! i ! j = ((\<lambda>x. remove_if_exists x v) ^^ count_list coords (i, j)) (g ! i ! j))"
  using assms
proof (induction coords arbitrary: g)
  case Nil
  then show ?case by simp
next
  case (Cons rc coords)
  obtain r c where rc: "rc = (r, c)" by (cases rc)
  from Cons.prems rc have rng: "r < board_size" "c < board_size" by auto
  let ?g1 = "g[r := (g ! r)[c := remove_if_exists (g ! r ! c) v]]"
  have g1: "grid9 ?g1" using Cons.prems(1) rng by (rule grid9_set)
  from Cons.prems(2) have "\<forall>(i, j) \<in> set coords. i < board_size \<and> j < board_size" by simp
  from Cons.IH [OF g1 this] obtain g' where
    run: "for_each (eliminate v) coords ?g1 = Inr g'" and g': "grid9 g'" and
    cells: "\<forall>i < board_size. \<forall>j < board_size.
       g' ! i ! j = ((\<lambda>x. remove_if_exists x v) ^^ count_list coords (i, j)) (?g1 ! i ! j)"
    by blast
  have "for_each (eliminate v) (rc # coords) g = Inr g'"
    using run by (simp add: rc eliminate_grid9 [OF Cons.prems(1) rng])
  moreover have "g' ! i ! j
      = ((\<lambda>x. remove_if_exists x v) ^^ count_list (rc # coords) (i, j)) (g ! i ! j)"
    if "i < board_size" "j < board_size" for i j
    using cells that nth_grid_set [OF Cons.prems(1) rng that]
      funpow_swap1 [of "\<lambda>x. remove_if_exists x v" "count_list coords (i, j)" "g ! i ! j"]
    by (auto simp: rc)
  ultimately show ?case using g' by blast
qed


lemma subgrid_coordinates_iff:
  "(i, j) \<in> set (subgrid_coordinates row col) \<longleftrightarrow> i div 3 = row div 3 \<and> j div 3 = col div 3"
proof -
  have a: "(\<exists>d<3. n = m div 3 * 3 + d) \<longleftrightarrow> n div 3 = m div 3" for n m :: nat
  proof
    assume "\<exists>d<3. n = m div 3 * 3 + d"
    then show "n div 3 = m div 3" by auto
  next
    assume "n div 3 = m div 3"
    then have "n mod 3 < 3 \<and> n = m div 3 * 3 + n mod 3" by (metis div_mult_mod_eq mod_less_divisor zero_less_numeral)
    then show "\<exists>d<3. n = m div 3 * 3 + d" by blast
  qed
  have "(i, j) \<in> set (subgrid_coordinates row col)
        \<longleftrightarrow> (\<exists>dr<3. i = row div 3 * 3 + dr) \<and> (\<exists>dc<3. j = col div 3 * 3 + dc)"
    unfolding subgrid_coordinates_def Let_def by fastforce
  then show ?thesis by (simp add: a)
qed

lemma peers_list_iff:
  "i < board_size \<Longrightarrow> j < board_size \<Longrightarrow>
   (i, j) \<in> set (peers_list row col) \<longleftrightarrow> peer (row, col) (i, j)"
  by (auto simp: peers_list_def peer_def subgrid_coordinates_iff)

lemma peers_list_range:
  assumes "row < board_size" "col < board_size"
  shows "\<forall>(i, j) \<in> set (peers_list row col). i < board_size \<and> j < board_size"
proof -
  have "n < 9" if "n div 3 = m div 3" "m < 9" for n m :: nat
    using that by arith
  then show ?thesis
    using assms by (auto simp: peers_list_def subgrid_coordinates_iff board_size_def)
qed

lemma strike_Assigned: "((\<lambda>x. remove_if_exists x v) ^^ k) (Assigned n) = Assigned n"
  by (induction k) auto

lemma strike_Candidates:
  "((\<lambda>x. remove_if_exists x v) ^^ k) (Candidates lst) = Candidates ((remove1 v ^^ k) lst)"
  by (induction k) (auto simp: remove1_idem)

lemma subseq_remove1: "subseq (remove1 x xs) xs"
  by (induction xs) auto

lemma subseq_remove1_pow: "subseq ((remove1 x ^^ k) xs) xs"
proof (induction k)
  case 0
  show ?case by simp
next
  case (Suc k)
  have "subseq (remove1 x ((remove1 x ^^ k) xs)) ((remove1 x ^^ k) xs)" by (rule subseq_remove1)
  with Suc show ?case by (auto intro: subseq_order.trans)
qed

lemma remove1_pow_distinct:
  "distinct xs \<Longrightarrow> 0 < (k::nat) \<Longrightarrow> x \<notin> set ((remove1 x ^^ k) xs)"
proof (induction k)
  case 0
  then show ?case by simp
next
  case (Suc k)
  have "distinct ((remove1 x ^^ k) xs)"
    using Suc.prems(1) subseq_remove1_pow [where x = x and k = k and xs = xs] by (metis subseq_conv_nths distinct_nthsI)
  then show ?case by simp
qed

lemma cell_ok_distinct: "cell_ok (Candidates lst) \<Longrightarrow> distinct lst"
proof -
  assume "cell_ok (Candidates lst)"
  then obtain N where "lst = nths (map int [1..<10]) N" by (auto simp: subseq_conv_nths)
  moreover have "distinct (map int [1..<10])" by (simp add: distinct_map)
  ultimately show ?thesis by simp
qed

lemma cell_ok_strike: "cell_ok x \<Longrightarrow> cell_ok (((\<lambda>x. remove_if_exists x v) ^^ k) x)"
  by (cases x) (auto simp: strike_Assigned strike_Candidates intro: subseq_order.trans [OF subseq_remove1_pow])

text \<open>The result of \<open>update\<close> on a 9x9 grid, square by square.\<close>

lemma update_cells:
  assumes g: "grid9 (rows b)" and rng: "row < board_size" "col < board_size"
  shows "\<exists>b'. update b row col v = Inr b'
           \<and> num_nums_placed b' = num_nums_placed b + 1
           \<and> grid9 (rows b')
           \<and> (\<forall>i < board_size. \<forall>j < board_size.
                rows b' ! i ! j =
                  (if (i, j) = (row, col) then Assigned v
                   else ((\<lambda>x. remove_if_exists x v) ^^ count_list (peers_list row col) (i, j))
                          (rows b ! i ! j)))"
proof -
  let ?g0 = "(rows b)[row := (rows b ! row)[col := Assigned v]]"
  have g0: "grid9 ?g0" using g rng by (rule grid9_set)
  from for_each_eliminate [OF g0 peers_list_range [OF rng], of v] obtain g3 where
    run: "for_each (eliminate v) (peers_list row col) ?g0 = Inr g3" and g3: "grid9 g3" and
    cells: "\<forall>i < board_size. \<forall>j < board_size.
       g3 ! i ! j = ((\<lambda>x. remove_if_exists x v) ^^ count_list (peers_list row col) (i, j)) (?g0 ! i ! j)"
    by blast
  have upd: "update b row col v = Inr \<lparr> num_nums_placed = num_nums_placed b + 1, rows = g3 \<rparr>"
    by (simp add: update_peers_list set_cell_grid9 [OF g rng] run)
  have "g3 ! i ! j =
          (if (i, j) = (row, col) then Assigned v
           else ((\<lambda>x. remove_if_exists x v) ^^ count_list (peers_list row col) (i, j))
                  (rows b ! i ! j))"
    if "i < board_size" "j < board_size" for i j
    using cells that nth_grid_set [OF g rng that] by (auto simp: strike_Assigned)
  with upd g3 show ?thesis by simp
qed


lemma wf_board_nth:
  "wf_board b \<longleftrightarrow>
     grid9 (rows b) \<and> (\<forall>i < board_size. \<forall>j < board_size. cell_ok (rows b ! i ! j))"
proof
  assume w: "wf_board b"
  have "cell_ok (rows b ! i ! j)" if "i < board_size" "j < board_size" for i j
  proof -
    from w that(1) have "rows b ! i \<in> set (rows b)" by (simp add: wf_board_def grid9_def)
    moreover from this w that(2) have "rows b ! i ! j \<in> set (rows b ! i)"
      by (simp add: wf_board_def grid9_def)
    ultimately show ?thesis using w by (simp add: wf_board_def)
  qed
  with w show "grid9 (rows b) \<and> (\<forall>i < board_size. \<forall>j < board_size. cell_ok (rows b ! i ! j))"
    by (simp add: wf_board_def)
next
  assume a: "grid9 (rows b) \<and> (\<forall>i < board_size. \<forall>j < board_size. cell_ok (rows b ! i ! j))"
  have "cell_ok x" if "row \<in> set (rows b)" "x \<in> set row" for row x
  proof -
    from that(1) obtain i where i: "i < length (rows b)" "rows b ! i = row"
      by (auto simp: in_set_conv_nth)
    from that(2) obtain j where j: "j < length row" "row ! j = x"
      by (auto simp: in_set_conv_nth)
    from a i j that(1) show ?thesis by (auto simp: grid9_def)
  qed
  with a show "wf_board b" by (simp add: wf_board_def)
qed

lemma wf_board_init: "wf_board Board_init"
  by (auto simp: wf_board_def grid9_def Board_init_def)

lemma update_wf:
  assumes "wf_board b" "row < board_size" "col < board_size"
  shows "\<exists>b'. update b row col v = Inr b' \<and> wf_board b'
           \<and> num_nums_placed b' = num_nums_placed b + 1"
proof -
  from assms(1) have g: "grid9 (rows b)" by (simp add: wf_board_def)
  from update_cells [OF g assms(2,3), of v] obtain b' where
    b': "update b row col v = Inr b'" "num_nums_placed b' = num_nums_placed b + 1"
        "grid9 (rows b')" and
    cells: "\<forall>i < board_size. \<forall>j < board_size.
                rows b' ! i ! j =
                  (if (i, j) = (row, col) then Assigned v
                   else ((\<lambda>x. remove_if_exists x v) ^^ count_list (peers_list row col) (i, j))
                          (rows b ! i ! j))"
    by blast
  have "cell_ok (rows b' ! i ! j)" if "i < board_size" "j < board_size" for i j
    using cells that assms(1) by (auto simp: wf_board_nth intro: cell_ok_strike)
  with b' show ?thesis by (auto simp: wf_board_nth)
qed

lemma updates_wf:
  assumes "wf_board b" and "\<forall>(r, c, v) \<in> set moves. r < board_size \<and> c < board_size"
  shows "\<exists>b'. updates moves b = Inr b' \<and> wf_board b'
           \<and> num_nums_placed b' = num_nums_placed b + int (length moves)"
  using assms
proof (induction moves arbitrary: b)
  case Nil
  then show ?case by (simp add: updates_def)
next
  case (Cons mv moves)
  obtain r c v where mv: "mv = (r, c, v)" by (cases mv)
  from Cons.prems mv have rng: "r < board_size" "c < board_size" by auto
  from update_wf [OF Cons.prems(1) rng, of v] obtain b1 where
    b1: "update b r c v = Inr b1" "wf_board b1" "num_nums_placed b1 = num_nums_placed b + 1"
    by blast
  from Cons.prems(2) have "\<forall>(r, c, v) \<in> set moves. r < board_size \<and> c < board_size" by simp
  from Cons.IH [OF b1(2) this] obtain b' where
    "updates moves b1 = Inr b'" "wf_board b'"
    "num_nums_placed b' = num_nums_placed b1 + int (length moves)"
    by blast
  with b1 show ?case by (simp add: updates_def mv)
qed

lemma update_counter: "update b r c v = Inr b' \<Longrightarrow> num_nums_placed b' = num_nums_placed b + 1"
  by (auto simp: update_def split: sum.splits)

lemma cell_ok_sorted: "cell_ok (Candidates lst) \<Longrightarrow> sorted_wrt (<) lst"
proof -
  assume "cell_ok (Candidates lst)"
  then obtain N where "lst = nths (map int [1..<10]) N" by (auto simp: subseq_conv_nths)
  moreover have "sorted (map int [1..<10])" "distinct (map int [1..<10])"
    by (simp_all add: sorted_map distinct_map)
  ultimately show ?thesis by (simp add: strict_sorted_iff sorted_nths)
qed

section \<open>Elimination by \<open>update\<close>\<close>

text \<open>
  C1. On a board whose grid is 9x9 and whose candidate lists are sublists of
  \<open>[1, ..., 9]\<close>, a call \<open>update(r, c, v)\<close> with \<open>r, c\<close> in \<open>[0, 9)\<close> returns
  normally; afterwards no square that is still a candidate list and shares the row, the
  column or the 3x3 subgrid of \<open>(r, c)\<close> contains \<open>v\<close>, and every other square that held
  an assigned integer holds the same integer.
\<close>

theorem C1_update_eliminates_from_peers:
  assumes "wf_board b" and "r < 9" and "c < 9"
  shows "\<exists>b'. update b r c v = Inr b'
           \<and> (\<forall>i < 9. \<forall>j < 9. peer (r, c) (i, j) \<longrightarrow>
                 (\<forall>lst. rows b' ! i ! j = Candidates lst \<longrightarrow> v \<notin> set lst))
           \<and> (\<forall>i < 9. \<forall>j < 9. (i, j) \<noteq> (r, c) \<longrightarrow>
                 (\<forall>n. rows b ! i ! j = Assigned n \<longrightarrow> rows b' ! i ! j = Assigned n))"
proof -
  from assms(1) have g: "grid9 (rows b)" by (simp add: wf_board_def)
  from assms have rng: "r < board_size" "c < board_size" by (simp_all add: board_size_def)
  from update_cells [OF g rng, of v] obtain b' where
    b': "update b r c v = Inr b'" and
    cells: "\<forall>i < board_size. \<forall>j < board_size.
                rows b' ! i ! j =
                  (if (i, j) = (r, c) then Assigned v
                   else ((\<lambda>x. remove_if_exists x v) ^^ count_list (peers_list r c) (i, j))
                          (rows b ! i ! j))"
    by blast
  have gone: "v \<notin> set lst"
    if ij: "i < 9" "j < 9" and p: "peer (r, c) (i, j)" and l: "rows b' ! i ! j = Candidates lst"
    for i j lst
  proof -
    from ij have ij': "i < board_size" "j < board_size" by (simp_all add: board_size_def)
    from l cells ij' have ne: "(i, j) \<noteq> (r, c)" by auto
    let ?k = "count_list (peers_list r c) (i, j)"
    from p ij' have "(i, j) \<in> set (peers_list r c)" by (simp add: peers_list_iff)
    then have "?k \<noteq> 0" by (simp add: count_list_0_iff)
    then have "0 < ?k" by simp
    from cells ij' ne l have eq:
      "((\<lambda>x. remove_if_exists x v) ^^ ?k) (rows b ! i ! j) = Candidates lst" by auto
    show ?thesis
    proof (cases "rows b ! i ! j")
      case (Assigned n)
      with eq show ?thesis by (simp add: strike_Assigned)
    next
      case (Candidates old)
      from assms(1) ij' have "cell_ok (rows b ! i ! j)" by (simp add: wf_board_nth)
      with Candidates have "distinct old" by (simp add: cell_ok_distinct)
      from remove1_pow_distinct [OF this \<open>0 < ?k\<close>, of v] eq Candidates
      show ?thesis by (simp add: strike_Candidates)
    qed
  qed
  have kept: "rows b' ! i ! j = Assigned n"
    if "i < 9" "j < 9" "(i, j) \<noteq> (r, c)" "rows b ! i ! j = Assigned n" for i j n
    using cells that by (auto simp: board_size_def strike_Assigned)
  from b' gone kept show ?thesis by blast
qed

theorem C1_witness:
  "\<exists>b'. update Board_init 0 0 5 = Inr b'
        \<and> (\<forall>lst. rows b' ! 0 ! 1 = Candidates lst \<longrightarrow> 5 \<notin> set lst)"
proof -
  from C1_update_eliminates_from_peers [OF wf_board_init, of 0 0 5] obtain b' where
    b': "update Board_init 0 0 5 = Inr b'" and
    gone: "\<forall>i < 9. \<forall>j < 9. peer (0, 0) (i, j) \<longrightarrow>
             (\<forall>lst. rows b' ! i ! j = Candidates lst \<longrightarrow> 5 \<notin> set lst)"
    by auto
  have "peer (0, 0) (0, 1)" by (simp add: peer_def)
  with gone [rule_format, of 0 1]
  have "\<forall>lst. rows b' ! 0 ! 1 = Candidates lst \<longrightarrow> 5 \<notin> set lst"
    by simp
  with b' show ?thesis by blast
qed


section \<open>Invariants of boards built by \<open>update\<close>\<close>

text \<open>
  C5. Starting from a freshly created board, after \<open>N\<close> calls of \<open>update\<close> at pairwise
  distinct coordinates in \<open>[0, 9)\<close> the counter \<open>num_nums_placed\<close> equals \<open>N\<close>; every call
  of \<open>update\<close> that returns has incremented the counter by exactly 1.
\<close>

theorem C5_counter_counts_updates:
  assumes "distinct (map (\<lambda>(r, c, v). (r, c)) moves)"
    and "\<forall>(r, c, v) \<in> set moves. r < 9 \<and> c < 9"
  shows "(\<exists>b. updates moves Board_init = Inr b \<and> num_nums_placed b = int (length moves))
         \<and> (\<forall>b r c v b'. update b r c v = Inr b' \<longrightarrow>
               num_nums_placed b' = num_nums_placed b + 1)"
proof -
  from assms(2) have "\<forall>(r, c, v) \<in> set moves. r < board_size \<and> c < board_size"
    by (simp add: board_size_def)
  from updates_wf [OF wf_board_init this]
  have "\<exists>b. updates moves Board_init = Inr b \<and> num_nums_placed b = int (length moves)"
    by (auto simp: Board_init_def)
  then show ?thesis by (simp add: update_counter)
qed

theorem C5_witness:
  "\<exists>b. updates [(0, 1, 7), (0, 7, 1), (1, 2, 9)] Board_init = Inr b \<and> num_nums_placed b = 3"
  using C5_counter_counts_updates [of "[(0, 1, 7), (0, 7, 1), (1, 2, 9)]"]
  by simp

text \<open>
  C10. Starting from a freshly created board, after any sequence of \<open>update\<close> calls at
  coordinates in \<open>[0, 9)\<close> every square that is still a candidate list is strictly
  ascending, free of duplicates and a sublist of \<open>[1, ..., 9]\<close>; the drivers iterate that
  list in order, hence in ascending order of the digits.
\<close>

theorem C10_candidates_ascending_sublists:
  assumes "\<forall>(r, c, v) \<in> set moves. r < 9 \<and> c < 9"
  shows "\<exists>b. updates moves Board_init = Inr b
           \<and> (\<forall>i < 9. \<forall>j < 9. \<forall>lst. rows b ! i ! j = Candidates lst \<longrightarrow>
                 sorted_wrt (<) lst \<and> distinct lst \<and> subseq lst [1, 2, 3, 4, 5, 6, 7, 8, 9])"
proof -
  from assms have "\<forall>(r, c, v) \<in> set moves. r < board_size \<and> c < board_size"
    by (simp add: board_size_def)
  from updates_wf [OF wf_board_init this] obtain b where
    b: "updates moves Board_init = Inr b" "wf_board b"
    by blast
  have nine: "map int [1..<10] = [1, 2, 3, 4, 5, 6, 7, 8, 9]"
    by (simp add: upt_rec)
  have "sorted_wrt (<) lst \<and> distinct lst \<and> subseq lst [1, 2, 3, 4, 5, 6, 7, 8, 9]"
    if "i < 9" "j < 9" "rows b ! i ! j = Candidates lst" for i j lst
  proof -
    from b(2) that(1,2) have "cell_ok (rows b ! i ! j)"
      by (simp add: wf_board_nth board_size_def)
    with that(3) have ok: "cell_ok (Candidates lst)" by simp
    from ok have "subseq lst (map int [1..<10])" by (simp only: cell_ok.simps)
    then have "subseq lst [1, 2, 3, 4, 5, 6, 7, 8, 9]" by (simp only: nine)
    with ok show ?thesis by (simp add: cell_ok_sorted cell_ok_distinct)
  qed
  with b(1) show ?thesis by blast
qed

theorem C10_witness:
  "\<exists>b. updates [(0, 0, 5), (0, 0, 7)] Board_init = Inr b
        \<and> (\<forall>lst. rows b ! 0 ! 1 = Candidates lst \<longrightarrow> sorted_wrt (<) lst)"
proof -
  from C10_candidates_ascending_sublists [of "[(0, 0, 5), (0, 0, 7)]"] obtain b where
    b: "updates [(0, 0, 5), (0, 0, 7)] Board_init = Inr b" and
    asc: "\<forall>i < 9. \<forall>j < 9. \<forall>lst. rows b ! i ! j = Candidates lst \<longrightarrow>
                 sorted_wrt (<) lst \<and> distinct lst \<and> subseq lst [1, 2, 3, 4, 5, 6, 7, 8, 9]"
    by auto
  from asc [rule_format, of 0 1] have "\<forall>lst. rows b ! 0 ! 1 = Candidates lst \<longrightarrow> sorted_wrt (<) lst"
    by simp
  with b show ?thesis by blast
qed


section \<open>The most constrained square\<close>

text \<open>
  The squares scanned before \<open>(r, c)\<close>, the row-major order, and what the loop state
  \<open>(best_len, best_r, best_c)\<close> means once the squares of \<open>S\<close> are scanned.
\<close>

definition seen :: "nat \<Rightarrow> nat \<Rightarrow> (nat \<times> nat) set" where
  "seen r c = {(i, j). j < board_size \<and> (i < r \<or> (i = r \<and> j < c))}"

definition row_major_le :: "nat \<times> nat \<Rightarrow> nat \<times> nat \<Rightarrow> bool" where
  "row_major_le p q \<longleftrightarrow> fst p < fst q \<or> (fst p = fst q \<and> snd p \<le> snd q)"

definition best_among :: "cell list list \<Rightarrow> (nat \<times> nat) set \<Rightarrow> nat \<times> nat \<times> nat \<Rightarrow> bool" where
  "best_among g S best \<longleftrightarrow>
     (case best of (best_len, best_r, best_c) \<Rightarrow>
        (best_len = 10 \<and> best_r = 0 \<and> best_c = 0
         \<and> (\<forall>(i, j) \<in> S. \<forall>lst. g ! i ! j = Candidates lst \<longrightarrow> 10 \<le> length lst))
        \<or> (best_len < 10 \<and> (best_r, best_c) \<in> S
           \<and> (\<exists>lst. g ! best_r ! best_c = Candidates lst \<and> length lst = best_len)
           \<and> (\<forall>(i, j) \<in> S. \<forall>lst. g ! i ! j = Candidates lst \<longrightarrow>
                 best_len \<le> length lst
                 \<and> (length lst = best_len \<longrightarrow> row_major_le (best_r, best_c) (i, j)))))"

lemma best_among_ge:
  "best_among g S (bl, br, bc) \<Longrightarrow> (i, j) \<in> S \<Longrightarrow> g ! i ! j = Candidates lst \<Longrightarrow> bl \<le> length lst"
  unfolding best_among_def by auto

lemma best_among_le10: "best_among g S (bl, br, bc) \<Longrightarrow> bl \<le> 10"
  unfolding best_among_def by auto

lemma best_among_new:
  assumes inv: "best_among g S (bl, br, bc)"
    and cell: "g ! r ! c = Candidates lst" and less: "length lst < bl"
  shows "best_among g (insert (r, c) S) (length lst, r, c)"
proof -
  have "length lst < 10" using less best_among_le10 [OF inv] by simp
  moreover have "length lst \<le> length l \<and> (length l = length lst \<longrightarrow> row_major_le (r, c) (i, j))"
    if "(i, j) \<in> insert (r, c) S" "g ! i ! j = Candidates l" for i j l
  proof (cases "(i, j) = (r, c)")
    case True
    with that cell show ?thesis by (simp add: row_major_le_def)
  next
    case False
    with that have "(i, j) \<in> S" by auto
    from best_among_ge [OF inv this that(2)] less show ?thesis by simp
  qed
  ultimately show ?thesis
    unfolding best_among_def using cell by auto
qed

lemma best_among_keep:
  assumes inv: "best_among g S (bl, br, bc)"
    and cell: "\<forall>lst. g ! r ! c = Candidates lst \<longrightarrow> bl \<le> length lst"
    and later: "\<forall>q \<in> S. row_major_le q (r, c)"
  shows "best_among g (insert (r, c) S) (bl, br, bc)"
proof -
  from inv consider
    (none) "bl = 10" "br = 0" "bc = 0"
           "\<forall>(i, j) \<in> S. \<forall>lst. g ! i ! j = Candidates lst \<longrightarrow> 10 \<le> length lst"
  | (some) "bl < 10" "(br, bc) \<in> S" "\<exists>lst. g ! br ! bc = Candidates lst \<and> length lst = bl"
           "\<forall>(i, j) \<in> S. \<forall>lst. g ! i ! j = Candidates lst \<longrightarrow>
                 bl \<le> length lst \<and> (length lst = bl \<longrightarrow> row_major_le (br, bc) (i, j))"
    unfolding best_among_def by auto
  then show ?thesis
  proof cases
    case none
    have "\<forall>(i, j) \<in> insert (r, c) S. \<forall>lst. g ! i ! j = Candidates lst \<longrightarrow> 10 \<le> length lst"
      using none(1,4) cell by auto
    with none(1-3) show ?thesis unfolding best_among_def by simp
  next
    case some
    from some(2) later have "row_major_le (br, bc) (r, c)" by blast
    with cell some(4)
    have "\<forall>(i, j) \<in> insert (r, c) S. \<forall>lst. g ! i ! j = Candidates lst \<longrightarrow>
                 bl \<le> length lst \<and> (length lst = bl \<longrightarrow> row_major_le (br, bc) (i, j))"
      by auto
    with some(1-3) show ?thesis unfolding best_among_def by simp
  qed
qed

lemma best_among_step:
  assumes inv: "best_among g S best"
    and later: "\<forall>q \<in> S. row_major_le q (r, c)"
  shows "best_among g (insert (r, c) S) (consider_cell (g ! r ! c) r c best)"
proof -
  obtain bl br bc where best: "best = (bl, br, bc)" by (cases best)
  show ?thesis
  proof (cases "g ! r ! c")
    case (Assigned n)
    then have "best_among g (insert (r, c) S) (bl, br, bc)"
      using best_among_keep [OF inv [unfolded best] _ later] by simp
    with Assigned best show ?thesis by (simp add: consider_cell_def)
  next
    case (Candidates lst)
    show ?thesis
    proof (cases "length lst < bl")
      case True
      from best_among_new [OF inv [unfolded best] Candidates True]
      show ?thesis using True Candidates best by (simp add: consider_cell_def)
    next
      case False
      with Candidates have "\<forall>l. g ! r ! c = Candidates l \<longrightarrow> bl \<le> length l" by simp
      from best_among_keep [OF inv [unfolded best] this later]
      show ?thesis using False Candidates best by (simp add: consider_cell_def)
    qed
  qed
qed


lemma seen_Suc: "c < board_size \<Longrightarrow> seen r (Suc c) = insert (r, c) (seen r c)"
  by (auto simp: seen_def)

lemma seen_row_end: "seen r board_size = seen (Suc r) 0"
  by (auto simp: seen_def)

lemma seen_before: "\<forall>q \<in> seen r c. row_major_le q (r, c)"
  by (auto simp: seen_def row_major_le_def)

lemma scan_row_prefix:
  assumes g: "grid9 g" and r: "r < board_size" and inv: "best_among g (seen r 0) best"
  shows "n \<le> board_size \<Longrightarrow>
         \<exists>best'. for_each (\<lambda>c st. case get_cell g r c of
                                     Inl e \<Rightarrow> Inl e
                                   | Inr cell \<Rightarrow> Inr (consider_cell cell r c st))
                           [0..<n] best = Inr best'
                \<and> best_among g (seen r n) best'"
proof (induction n)
  case 0
  with inv show ?case by simp
next
  case (Suc n)
  then obtain st where
    run: "for_each (\<lambda>c st. case get_cell g r c of
                                     Inl e \<Rightarrow> Inl e
                                   | Inr cell \<Rightarrow> Inr (consider_cell cell r c st))
                           [0..<n] best = Inr st" and
    st: "best_among g (seen r n) st"
    by auto
  from Suc.prems have n: "n < board_size" by simp
  from best_among_step [OF st seen_before]
  have "best_among g (seen r (Suc n)) (consider_cell (g ! r ! n) r n st)"
    by (simp add: seen_Suc [OF n])
  with run show ?case
    by (simp add: for_each_append get_cell_grid9 [OF g r n])
qed

lemma scan_row_grid9:
  assumes "grid9 g" and "r < board_size" and "best_among g (seen r 0) best"
  shows "\<exists>best'. scan_row g r best = Inr best' \<and> best_among g (seen (Suc r) 0) best'"
  using scan_row_prefix [OF assms, of board_size]
  by (simp add: scan_row_def seen_row_end)

lemma scan_rows_prefix:
  assumes g: "grid9 g"
  shows "n \<le> board_size \<Longrightarrow>
         \<exists>best. for_each (scan_row g) [0..<n] (10, 0, 0) = Inr best
               \<and> best_among g (seen n 0) best"
proof (induction n)
  case 0
  show ?case by (simp add: best_among_def seen_def)
next
  case (Suc n)
  then obtain st where
    run: "for_each (scan_row g) [0..<n] (10, 0, 0) = Inr st" and
    st: "best_among g (seen n 0) st"
    by auto
  from Suc.prems have n: "n < board_size" by simp
  from scan_row_grid9 [OF g n st] run show ?case
    by (auto simp: for_each_append)
qed

lemma seen_all: "seen board_size 0 = {(i, j). i < board_size \<and> j < board_size}"
  by (auto simp: seen_def)

lemma find_most_constrained_cell_grid9:
  assumes "grid9 (rows b)"
  shows "\<exists>bl r c. find_most_constrained_cell b = Inr (r, c)
           \<and> best_among (rows b) {(i, j). i < board_size \<and> j < board_size} (bl, r, c)"
proof -
  from scan_rows_prefix [OF assms, of board_size] obtain best where
    "for_each (scan_row (rows b)) [0..<board_size] (10, 0, 0) = Inr best"
    "best_among (rows b) (seen board_size 0) best"
    by auto
  then show ?thesis
    by (cases best) (auto simp: find_most_constrained_cell_def seen_all)
qed


lemma cell_ok_length: "cell_ok (Candidates lst) \<Longrightarrow> length lst \<le> 9"
  using list_emb_length [of "(=)" lst "map int [1..<10]"] by simp

text \<open>
  C2. On a board whose grid is 9x9 and whose candidate lists are sublists of
  \<open>[1, ..., 9]\<close>, \<open>find_most_constrained_cell\<close> returns normally. When some square is a
  candidate list, the returned coordinate is a candidate list of minimum length, and every
  candidate list of the same length lies at or after it in row-major order; when no
  square is a candidate list, the result is \<open>(0, 0)\<close>.
\<close>

theorem C2_find_most_constrained_cell:
  assumes "wf_board b"
  shows "\<exists>r c. find_most_constrained_cell b = Inr (r, c)
           \<and> (if \<exists>i < 9. \<exists>j < 9. \<exists>lst. rows b ! i ! j = Candidates lst
              then r < 9 \<and> c < 9
                 \<and> (\<exists>lst. rows b ! r ! c = Candidates lst
                      \<and> (\<forall>i < 9. \<forall>j < 9. \<forall>l. rows b ! i ! j = Candidates l \<longrightarrow>
                            length lst \<le> length l
                            \<and> (length l = length lst \<longrightarrow> r < i \<or> (r = i \<and> c \<le> j))))
              else r = 0 \<and> c = 0)"
proof -
  from assms have g: "grid9 (rows b)" by (simp add: wf_board_def)
  from find_most_constrained_cell_grid9 [OF g] obtain bl r c where
    res: "find_most_constrained_cell b = Inr (r, c)" and
    best: "best_among (rows b) {(i, j). i < board_size \<and> j < board_size} (bl, r, c)"
    by blast
  from best consider
    (none) "r = 0" "c = 0"
           "\<forall>i < 9. \<forall>j < 9. \<forall>lst. rows b ! i ! j = Candidates lst \<longrightarrow> 10 \<le> length lst"
  | (some) "r < 9" "c < 9" "\<exists>lst. rows b ! r ! c = Candidates lst \<and> length lst = bl"
           "\<forall>i < 9. \<forall>j < 9. \<forall>l. rows b ! i ! j = Candidates l \<longrightarrow>
                 bl \<le> length l \<and> (length l = bl \<longrightarrow> row_major_le (r, c) (i, j))"
    unfolding best_among_def board_size_def by auto
  then show ?thesis
  proof cases
    case none
    have "\<not> (\<exists>i < 9. \<exists>j < 9. \<exists>lst. rows b ! i ! j = Candidates lst)"
    proof
      assume "\<exists>i < 9. \<exists>j < 9. \<exists>lst. rows b ! i ! j = Candidates lst"
      then obtain i j lst where ij: "i < 9" "j < 9" "rows b ! i ! j = Candidates lst" by blast
      from assms ij(1,2) have "cell_ok (rows b ! i ! j)"
        by (simp add: wf_board_nth board_size_def)
      with ij(3) have "length lst \<le> 9" by (simp add: cell_ok_length)
      moreover from none(3) ij have "10 \<le> length lst" by blast
      ultimately show False by simp
    qed
    with res none(1,2) show ?thesis by simp
  next
    case some
    from some(3) obtain lst where lst: "rows b ! r ! c = Candidates lst" "length lst = bl"
      by blast
    from some(4) lst(2)
    have "\<forall>i < 9. \<forall>j < 9. \<forall>l. rows b ! i ! j = Candidates l \<longrightarrow>
            length lst \<le> length l \<and> (length l = length lst \<longrightarrow> r < i \<or> (r = i \<and> c \<le> j))"
      by (simp add: row_major_le_def)
    moreover from some(1,2) lst(1)
    have "\<exists>i < 9. \<exists>j < 9. \<exists>lst. rows b ! i ! j = Candidates lst" by blast
    ultimately show ?thesis using res some(1,2) lst(1) by simp
  qed
qed

theorem C2_witness:
  "\<exists>r c. find_most_constrained_cell Board_init = Inr (r, c) \<and> r < 9 \<and> c < 9
        \<and> (\<exists>lst. rows Board_init ! r ! c = Candidates lst)"
proof -
  have "\<exists>i < 9. \<exists>j < 9. \<exists>lst. rows Board_init ! i ! j = Candidates lst"
    by (rule exI [of _ 0], simp, rule exI [of _ 0], simp add: Board_init_def board_size_def)
  with C2_find_most_constrained_cell [OF wf_board_init] show ?thesis
    by (auto simp del: ex_simps)
qed


section \<open>The drivers\<close>

text \<open>
  Modelled from the spec: the module \<open>stack_and_queue\<close> with the classes \<open>Stack\<close> and
  \<open>Queue\<close> is imported by \<open>a5.py\<close> and is not among the sources. By the spec the frontier
  is a last-in-first-out stack (removal takes the most recently pushed board) or a
  first-in-first-out queue (removal takes the earliest pushed board). Both are lists here
  with the next board to remove at the head; \<open>pop\<close> of an empty container has no value.
\<close>

definition stack_push :: "'a list \<Rightarrow> 'a \<Rightarrow> 'a list" where
  "stack_push s x = x # s"

definition queue_push :: "'a list \<Rightarrow> 'a \<Rightarrow> 'a list" where
  "queue_push q x = q @ [x]"

definition is_empty :: "'a list \<Rightarrow> bool" where
  "is_empty s \<longleftrightarrow> s = []"

definition pop :: "'a list \<Rightarrow> ('a \<times> 'a list) option" where
  "pop s = (case s of [] \<Rightarrow> None | x # rest \<Rightarrow> Some (x, rest))"

text \<open>
  \<open>copy.deepcopy\<close>: boards are values in this part of the development, so the copy is the
  same value; that the copy shares no object with the original is the subject of the
  store model further down.
\<close>

definition deepcopy :: "board \<Rightarrow> board" where
  "deepcopy b = b"

text \<open>
  The loop \<open>for v in choices\<close> of the drivers: one copy of \<open>candidate\<close> per value, updated
  and pushed. Iterating over an integer raises \<open>TypeError\<close>.
\<close>

fun branch :: "(board list \<Rightarrow> board \<Rightarrow> board list) \<Rightarrow> board \<Rightarrow> nat \<Rightarrow> nat \<Rightarrow> int list
                \<Rightarrow> board list \<Rightarrow> error + board list" where
  "branch push candidate r c [] frontier = Inr frontier"
| "branch push candidate r c (v # choices) frontier =
     (case update (deepcopy candidate) r c v of
        Inl e \<Rightarrow> Inl e
      | Inr new_state \<Rightarrow> branch push candidate r c choices (push frontier new_state))"

datatype outcome = Continue "board list" | Return board | Raise error

text \<open>
  One iteration of the \<open>while\<close> loop, entered with a non-empty frontier. The two drivers
  differ in the container only.
\<close>

definition iteration :: "(board list \<Rightarrow> board \<Rightarrow> board list) \<Rightarrow> board list \<Rightarrow> outcome" where
  "iteration push frontier =
     (case pop frontier of
        None \<Rightarrow> Raise IndexError
      | Some (candidate, rest) \<Rightarrow>
          if goal_test candidate then Return candidate
          else if \<not> failure_test candidate then
            (case find_most_constrained_cell candidate of
               Inl e \<Rightarrow> Raise e
             | Inr (r, c) \<Rightarrow>
            (case get_cell (rows candidate) r c of
               Inl e \<Rightarrow> Raise e
             | Inr (Assigned n) \<Rightarrow> Raise TypeError
             | Inr (Candidates choices) \<Rightarrow>
            (case branch push candidate r c choices rest of
               Inl e \<Rightarrow> Raise e
             | Inr frontier' \<Rightarrow> Continue frontier')))
          else Continue rest)"

fun is_list :: "cell \<Rightarrow> bool" where
  "is_list (Candidates lst) = True"
| "is_list (Assigned n) = False"

definition open_squares :: "cell list list \<Rightarrow> nat" where
  "open_squares g = length (filter is_list (concat g))"

lemma is_list_remove_if_exists: "is_list (remove_if_exists x v) = is_list x"
  by (cases x) auto

lemma length_filter_split:
  assumes "c < length row"
  shows "length (filter P row)
         = length (filter P (take c row)) + (if P (row ! c) then 1 else 0)
           + length (filter P (drop (Suc c) row))"
  using arg_cong [OF id_take_nth_drop [OF assms], of "\<lambda>xs. length (filter P xs)"] by simp

lemma length_filter_update:
  assumes "c < length row"
  shows "length (filter P (row[c := x]))
         = length (filter P (take c row)) + (if P x then 1 else 0)
           + length (filter P (drop (Suc c) row))"
  using assms by (simp add: upd_conv_take_nth_drop)

lemma filter_update_same:
  "c < length row \<Longrightarrow> P x = P (row ! c) \<Longrightarrow> length (filter P (row[c := x])) = length (filter P row)"
  by (simp add: length_filter_update length_filter_split [of c row])

lemma filter_update_close:
  "c < length row \<Longrightarrow> P (row ! c) \<Longrightarrow> \<not> P x \<Longrightarrow>
   Suc (length (filter P (row[c := x]))) = length (filter P row)"
  by (simp add: length_filter_update length_filter_split [of c row])

lemma open_squares_update_row:
  assumes "r < length g"
  shows "open_squares (g[r := row]) + length (filter is_list (g ! r))
         = open_squares g + length (filter is_list row)"
proof -
  have "open_squares g = length (filter is_list (concat (take r g)))
          + length (filter is_list (g ! r)) + length (filter is_list (concat (drop (Suc r) g)))"
    unfolding open_squares_def
    using arg_cong [OF id_take_nth_drop [OF assms], of "\<lambda>xs. length (filter is_list (concat xs))"]
    by simp
  moreover have "open_squares (g[r := row]) = length (filter is_list (concat (take r g)))
          + length (filter is_list row) + length (filter is_list (concat (drop (Suc r) g)))"
    unfolding open_squares_def using assms by (simp add: upd_conv_take_nth_drop)
  ultimately show ?thesis by simp
qed

lemma eliminate_open_squares:
  "eliminate v rc g = Inr g' \<Longrightarrow> open_squares g' = open_squares g"
  using open_squares_update_row [of "fst rc" g "(g ! fst rc)[snd rc := remove_if_exists (g ! fst rc ! snd rc) v]"]
  by (auto simp: eliminate_def get_cell_def set_cell_def filter_update_same is_list_remove_if_exists
           split: if_splits)

lemma for_each_open_squares:
  assumes "\<And>x g g'. body x g = Inr g' \<Longrightarrow> open_squares g' = open_squares g"
  shows "for_each body xs g = Inr g' \<Longrightarrow> open_squares g' = open_squares g"
proof (induction xs arbitrary: g)
  case Nil
  then show ?case by simp
next
  case (Cons x xs)
  then show ?case using assms by (auto split: sum.splits)
qed

lemma update_open_squares:
  assumes "get_cell (rows b) r c = Inr (Candidates lst)" and "update b r c v = Inr b'"
  shows "Suc (open_squares (rows b')) = open_squares (rows b)"
proof -
  from assms(1) have rc: "r < length (rows b)" "c < length (rows b ! r)"
    "rows b ! r ! c = Candidates lst"
    by (auto simp: get_cell_def split: if_splits)
  let ?g0 = "(rows b)[r := (rows b ! r)[c := Assigned v]]"
  from assms(2) rc obtain g1 g2 where
    l1: "for_each (\<lambda>r'. eliminate v (r', c)) [0..<board_size] ?g0 = Inr g1" and
    l2: "for_each (\<lambda>c'. eliminate v (r, c')) [0..<board_size] g1 = Inr g2" and
    l3: "for_each (eliminate v) (subgrid_coordinates r c) g2 = Inr (rows b')"
    by (auto simp: update_def set_cell_def split: sum.splits)
  have "open_squares (rows b') = open_squares g2"
    using l3 by (rule for_each_open_squares [rotated]) (rule eliminate_open_squares)
  also have "\<dots> = open_squares g1"
    using l2 by (rule for_each_open_squares [rotated]) (rule eliminate_open_squares)
  also have "\<dots> = open_squares ?g0"
    using l1 by (rule for_each_open_squares [rotated]) (rule eliminate_open_squares)
  finally have "open_squares (rows b') = open_squares ?g0" .
  moreover have "Suc (length (filter is_list ((rows b ! r)[c := Assigned v])))
                   = length (filter is_list (rows b ! r))"
    using rc by (simp add: filter_update_close)
  ultimately show ?thesis
    using open_squares_update_row [OF rc(1), of "(rows b ! r)[c := Assigned v]"] by simp
qed


lemma branch_children:
  "branch push cand r c vs frontier = Inr frontier' \<Longrightarrow>
   \<exists>children. list_all2 (\<lambda>v ch. update cand r c v = Inr ch) vs children
             \<and> frontier' = foldl push frontier children"
proof (induction vs arbitrary: frontier)
  case Nil
  then show ?case by simp
next
  case (Cons v vs)
  from Cons.prems obtain ch where
    ch: "update cand r c v = Inr ch" and
    rest: "branch push cand r c vs (push frontier ch) = Inr frontier'"
    by (auto simp: deepcopy_def split: sum.splits)
  from Cons.IH [OF rest] obtain children where
    "list_all2 (\<lambda>v ch. update cand r c v = Inr ch) vs children"
    "frontier' = foldl push (push frontier ch) children"
    by blast
  with ch have "list_all2 (\<lambda>v ch. update cand r c v = Inr ch) (v # vs) (ch # children)
        \<and> frontier' = foldl push frontier (ch # children)"
    by simp
  then show ?case by blast
qed

lemma iteration_Continue:
  assumes "iteration push frontier = Continue frontier'"
  obtains (dead) cand rest where
      "frontier = cand # rest" "\<not> goal_test cand" "failure_test cand" "frontier' = rest"
  | (expand) cand rest r c choices children where
      "frontier = cand # rest" "\<not> goal_test cand" "\<not> failure_test cand"
      "find_most_constrained_cell cand = Inr (r, c)"
      "get_cell (rows cand) r c = Inr (Candidates choices)"
      "list_all2 (\<lambda>v ch. update cand r c v = Inr ch) choices children"
      "frontier' = foldl push rest children"
proof -
  from assms obtain cand rest where fr: "frontier = cand # rest"
    by (cases frontier) (auto simp: iteration_def pop_def)
  from assms fr have ng: "\<not> goal_test cand"
    by (auto simp: iteration_def pop_def split: if_splits)
  show ?thesis
  proof (cases "failure_test cand")
    case True
    with assms fr ng have "frontier' = rest" by (simp add: iteration_def pop_def)
    with fr ng True show ?thesis by (rule dead)
  next
    case False
    with assms fr ng obtain r c choices where
      f: "find_most_constrained_cell cand = Inr (r, c)" and
      g: "get_cell (rows cand) r c = Inr (Candidates choices)" and
      b: "branch push cand r c choices rest = Inr frontier'"
      by (auto simp: iteration_def pop_def split: sum.splits cell.splits)
    from branch_children [OF b] obtain children where
      "list_all2 (\<lambda>v ch. update cand r c v = Inr ch) choices children"
      "frontier' = foldl push rest children"
      by blast
    with fr ng False f g show ?thesis by (rule expand)
  qed
qed


definition keeps_all :: "(board list \<Rightarrow> board \<Rightarrow> board list) \<Rightarrow> bool" where
  "keeps_all push \<longleftrightarrow> (\<forall>frontier x. mset (push frontier x) = add_mset x (mset frontier))"

lemma keeps_all_stack_push: "keeps_all stack_push"
  by (simp add: keeps_all_def stack_push_def)

lemma keeps_all_queue_push: "keeps_all queue_push"
  by (simp add: keeps_all_def queue_push_def)

lemma mset_foldl_push:
  "keeps_all push \<Longrightarrow> mset (foldl push frontier children) = mset frontier + mset children"
  by (induction children arbitrary: frontier) (simp_all add: keeps_all_def)

lemma foldl_stack_push: "foldl stack_push frontier children = rev children @ frontier"
  by (induction children arbitrary: frontier) (simp_all add: stack_push_def)

lemma foldl_queue_push: "foldl queue_push frontier children = frontier @ children"
  by (induction children arbitrary: frontier) (simp_all add: queue_push_def)

definition frontier_size :: "board list \<Rightarrow> nat multiset" where
  "frontier_size frontier = image_mset (\<lambda>b. open_squares (rows b)) (mset frontier)"

lemma iteration_decreases:
  assumes k: "keeps_all push" and it: "iteration push frontier = Continue frontier'"
  shows "(frontier_size frontier', frontier_size frontier) \<in> mult less_than"
  using it
proof (cases rule: iteration_Continue)
  case (dead cand rest)
  have "(frontier_size rest + {#}, frontier_size rest + {#open_squares (rows cand)#})
          \<in> mult less_than"
    by (rule one_step_implies_mult) simp_all
  with dead show ?thesis by (simp add: frontier_size_def)
next
  case (expand cand rest r c choices children)
  have less: "open_squares (rows ch) < open_squares (rows cand)" if "ch \<in> set children" for ch
  proof -
    from that expand(6) obtain v where "update cand r c v = Inr ch"
      by (auto simp: list_all2_conv_all_nth in_set_conv_nth)
    from update_open_squares [OF expand(5) this] show ?thesis by simp
  qed
  have "(frontier_size rest + frontier_size children,
         frontier_size rest + {#open_squares (rows cand)#}) \<in> mult less_than"
    by (rule one_step_implies_mult) (auto simp: frontier_size_def less)
  with expand(1,7) show ?thesis
    by (simp add: frontier_size_def mset_foldl_push [OF k])
qed

text \<open>
  \<open>DFS\<close> and \<open>BFS\<close>: the frontier starts with the input board; the loop runs while the
  frontier is not empty, and \<open>return None\<close> follows the loop.
\<close>

function DFS_loop :: "board list \<Rightarrow> error + board option" where
  "DFS_loop stack =
     (if is_empty stack then Inr None
      else case iteration stack_push stack of
             Return candidate \<Rightarrow> Inr (Some candidate)
           | Raise e \<Rightarrow> Inl e
           | Continue stack' \<Rightarrow> DFS_loop stack')"
  by pat_completeness auto
termination
proof (relation "inv_image (mult less_than) frontier_size")
  show "wf (inv_image (mult less_than) frontier_size)"
    by (intro wf_inv_image wf_mult wf_less_than)
next
  fix stack stack'
  assume "iteration stack_push stack = Continue stack'"
  then show "(stack', stack) \<in> inv_image (mult less_than) frontier_size"
    by (simp add: iteration_decreases [OF keeps_all_stack_push])
qed

definition DFS :: "board \<Rightarrow> error + board option" where
  "DFS state = DFS_loop (stack_push [] state)"

function BFS_loop :: "board list \<Rightarrow> error + board option" where
  "BFS_loop queue =
     (if is_empty queue then Inr None
      else case iteration queue_push queue of
             Return candidate \<Rightarrow> Inr (Some candidate)
           | Raise e \<Rightarrow> Inl e
           | Continue queue' \<Rightarrow> BFS_loop queue')"
  by pat_completeness auto
termination
proof (relation "inv_image (mult less_than) frontier_size")
  show "wf (inv_image (mult less_than) frontier_size)"
    by (intro wf_inv_image wf_mult wf_less_than)
next
  fix queue queue'
  assume "iteration queue_push queue = Continue queue'"
  then show "(queue', queue) \<in> inv_image (mult less_than) frontier_size"
    by (simp add: iteration_decreases [OF keeps_all_queue_push])
qed

definition BFS :: "board \<Rightarrow> error + board option" where
  "BFS state = BFS_loop (queue_push [] state)"

declare DFS_loop.simps [simp del] BFS_loop.simps [simp del]


section \<open>What the drivers return\<close>

lemma DFS_loop_goal: "DFS_loop stack = Inr (Some b) \<Longrightarrow> goal_test b"
proof (induction stack rule: DFS_loop.induct)
  case (1 stack)
  show ?case
  proof (cases "iteration stack_push stack")
    case (Continue stack')
    with "1.prems" have "\<not> is_empty stack" "DFS_loop stack' = Inr (Some b)"
      by (auto simp: DFS_loop.simps [of stack] split: if_splits)
    with "1.IH" Continue show ?thesis by blast
  next
    case (Return candidate)
    with "1.prems" have "candidate = b"
      by (auto simp: DFS_loop.simps [of stack] split: if_splits)
    with Return show ?thesis
      by (auto simp: iteration_def split: option.splits if_splits sum.splits cell.splits)
  next
    case (Raise e)
    with "1.prems" show ?thesis
      by (auto simp: DFS_loop.simps [of stack] split: if_splits)
  qed
qed

lemma BFS_loop_goal: "BFS_loop queue = Inr (Some b) \<Longrightarrow> goal_test b"
proof (induction queue rule: BFS_loop.induct)
  case (1 queue)
  show ?case
  proof (cases "iteration queue_push queue")
    case (Continue queue')
    with "1.prems" have "\<not> is_empty queue" "BFS_loop queue' = Inr (Some b)"
      by (auto simp: BFS_loop.simps [of queue] split: if_splits)
    with "1.IH" Continue show ?thesis by blast
  next
    case (Return candidate)
    with "1.prems" have "candidate = b"
      by (auto simp: BFS_loop.simps [of queue] split: if_splits)
    with Return show ?thesis
      by (auto simp: iteration_def split: option.splits if_splits sum.splits cell.splits)
  next
    case (Raise e)
    with "1.prems" show ?thesis
      by (auto simp: BFS_loop.simps [of queue] split: if_splits)
  qed
qed

text \<open>
  C9. Whenever \<open>DFS\<close> or \<open>BFS\<close> returns a board rather than \<open>None\<close>, that board satisfies
  \<open>goal_test\<close>, whatever the input board was.
\<close>

theorem C9_returned_board_passes_goal_test:
  "(DFS state = Inr (Some b) \<longrightarrow> goal_test b) \<and> (BFS state = Inr (Some b) \<longrightarrow> goal_test b)"
  by (auto simp: DFS_def BFS_def dest: DFS_loop_goal BFS_loop_goal)

lemma DFS_solved_input: "goal_test state \<Longrightarrow> DFS state = Inr (Some state)"
  by (simp add: DFS_def DFS_loop.simps [of "[state]"] stack_push_def is_empty_def
      iteration_def pop_def)

lemma BFS_solved_input: "goal_test state \<Longrightarrow> BFS state = Inr (Some state)"
  by (simp add: BFS_def BFS_loop.simps [of "[state]"] queue_push_def is_empty_def
      iteration_def pop_def)

theorem C9_witness:
  "DFS (Board_init\<lparr>num_nums_placed := 81\<rparr>) = Inr (Some (Board_init\<lparr>num_nums_placed := 81\<rparr>))
   \<and> goal_test (Board_init\<lparr>num_nums_placed := 81\<rparr>)"
proof -
  have g: "goal_test (Board_init\<lparr>num_nums_placed := 81\<rparr>)"
    by (simp add: goal_test_def board_size_def)
  from DFS_solved_input [OF g]
    C9_returned_board_passes_goal_test
      [of "Board_init\<lparr>num_nums_placed := 81\<rparr>" "Board_init\<lparr>num_nums_placed := 81\<rparr>"]
  show ?thesis by simp
qed


text \<open>
  The frontier empties without a board being returned: every iteration of the loop, from
  the given frontier on, goes on to the next one, until the frontier is empty.
\<close>

inductive exhausts :: "(board list \<Rightarrow> board \<Rightarrow> board list) \<Rightarrow> board list \<Rightarrow> bool"
  for push :: "board list \<Rightarrow> board \<Rightarrow> board list" where
  emptied: "is_empty frontier \<Longrightarrow> exhausts push frontier"
| goes_on: "\<not> is_empty frontier \<Longrightarrow> iteration push frontier = Continue frontier'
            \<Longrightarrow> exhausts push frontier' \<Longrightarrow> exhausts push frontier"

lemma DFS_loop_None_iff: "DFS_loop stack = Inr None \<longleftrightarrow> exhausts stack_push stack"
proof
  show "DFS_loop stack = Inr None \<Longrightarrow> exhausts stack_push stack"
  proof (induction stack rule: DFS_loop.induct)
    case (1 stack)
    show ?case
    proof (cases "is_empty stack")
      case True
      then show ?thesis by (rule emptied)
    next
      case False
      with "1.prems" obtain stack' where
        it: "iteration stack_push stack = Continue stack'" and "DFS_loop stack' = Inr None"
        by (auto simp: DFS_loop.simps [of stack] split: outcome.splits)
      with "1.IH" False have "exhausts stack_push stack'" by blast
      with False it show ?thesis by (rule goes_on)
    qed
  qed
next
  show "exhausts stack_push stack \<Longrightarrow> DFS_loop stack = Inr None"
    by (induction rule: exhausts.induct) (simp_all add: DFS_loop.simps [of "_ :: board list"])
qed

lemma BFS_loop_None_iff: "BFS_loop queue = Inr None \<longleftrightarrow> exhausts queue_push queue"
proof
  show "BFS_loop queue = Inr None \<Longrightarrow> exhausts queue_push queue"
  proof (induction queue rule: BFS_loop.induct)
    case (1 queue)
    show ?case
    proof (cases "is_empty queue")
      case True
      then show ?thesis by (rule emptied)
    next
      case False
      with "1.prems" obtain queue' where
        it: "iteration queue_push queue = Continue queue'" and "BFS_loop queue' = Inr None"
        by (auto simp: BFS_loop.simps [of queue] split: outcome.splits)
      with "1.IH" False have "exhausts queue_push queue'" by blast
      with False it show ?thesis by (rule goes_on)
    qed
  qed
next
  show "exhausts queue_push queue \<Longrightarrow> BFS_loop queue = Inr None"
    by (induction rule: exhausts.induct) (simp_all add: BFS_loop.simps [of "_ :: board list"])
qed

lemma iteration_Continue_pop:
  "iteration push frontier = Continue frontier' \<Longrightarrow>
   \<exists>candidate rest. pop frontier = Some (candidate, rest) \<and> \<not> goal_test candidate"
  by (erule iteration_Continue) (simp_all add: pop_def)

text \<open>
  C3. \<open>DFS\<close>, and likewise \<open>BFS\<close>, returns \<open>None\<close> exactly when its frontier empties
  through iterations none of which pops a board satisfying \<open>goal_test\<close>; the outcome is
  the returned value \<open>None\<close>, not a raised error.
\<close>

theorem C3_None_iff_frontier_exhausted:
  "(DFS state = Inr None \<longleftrightarrow> exhausts stack_push (stack_push [] state))
   \<and> (BFS state = Inr None \<longleftrightarrow> exhausts queue_push (queue_push [] state))
   \<and> (\<forall>push frontier frontier'. iteration push frontier = Continue frontier' \<longrightarrow>
         (\<exists>candidate rest. pop frontier = Some (candidate, rest) \<and> \<not> goal_test candidate))"
  using iteration_Continue_pop
  by (simp add: DFS_def BFS_def DFS_loop_None_iff BFS_loop_None_iff)

theorem C3_witness:
  "DFS \<lparr>num_nums_placed = 0, rows = [[Candidates []]]\<rparr> = Inr None
   \<and> BFS \<lparr>num_nums_placed = 0, rows = [[Candidates []]]\<rparr> = Inr None"
proof -
  let ?b = "\<lparr>num_nums_placed = 0, rows = [[Candidates []]]\<rparr>"
  have it: "iteration push [?b] = Continue []" for push
    by (simp add: iteration_def pop_def goal_test_def failure_test_def board_size_def)
  have "exhausts push [?b]" for push
    by (rule goes_on [OF _ it]) (simp_all add: is_empty_def emptied)
  with C3_None_iff_frontier_exhausted [of ?b] show ?thesis
    by (simp add: stack_push_def queue_push_def)
qed


section \<open>Solving a solvable puzzle\<close>

text \<open>
  A solution is a 9x9 grid of digits 1 to 9 in which no row, no column and no 3x3 subgrid
  repeats a digit.
\<close>

definition valid_solution :: "int list list \<Rightarrow> bool" where
  "valid_solution sol \<longleftrightarrow>
     length sol = 9
     \<and> list_all (\<lambda>row. length row = 9 \<and> list_all (\<lambda>v. 1 \<le> v \<and> v \<le> 9) row \<and> distinct row) sol
     \<and> list_all (\<lambda>c. distinct (map (\<lambda>row. row ! c) sol)) [0..<9]
     \<and> list_all (\<lambda>r. list_all (\<lambda>c. distinct (map (\<lambda>(i, j). sol ! i ! j) (subgrid_coordinates r c)))
                              [0, 3, 6]) [0, 3, 6]"

text \<open>The clues \<open>(row, col, digit)\<close> of a puzzle are met by a solution.\<close>

definition meets :: "int list list \<Rightarrow> (nat \<times> nat \<times> int) list \<Rightarrow> bool" where
  "meets sol clues \<longleftrightarrow> list_all (\<lambda>(r, c, v). r < 9 \<and> c < 9 \<and> sol ! r ! c = v) clues"

text \<open>
  The invariant of every board on the frontier: the counter counts the assigned squares,
  assigned digits are between 1 and 9, and the digit of an assigned square occurs in no
  peer, neither as its assigned digit nor in its candidate list.
\<close>

definition sound :: "board \<Rightarrow> bool" where
  "sound b \<longleftrightarrow>
     wf_board b
     \<and> num_nums_placed b + int (open_squares (rows b)) = 81
     \<and> (\<forall>i < board_size. \<forall>j < board_size. \<forall>v. rows b ! i ! j = Assigned v \<longrightarrow>
           1 \<le> v \<and> v \<le> 9
           \<and> (\<forall>i' < board_size. \<forall>j' < board_size.
                 peer (i, j) (i', j') \<and> (i', j') \<noteq> (i, j) \<longrightarrow>
                 rows b ! i' ! j' \<noteq> Assigned v
                 \<and> (\<forall>l. rows b ! i' ! j' = Candidates l \<longrightarrow> v \<notin> set l)))"

text \<open>A board leaves a solution possible: no square excludes the solution's digit.\<close>

definition admits :: "board \<Rightarrow> int list list \<Rightarrow> bool" where
  "admits b sol \<longleftrightarrow>
     (\<forall>i < board_size. \<forall>j < board_size.
        (\<forall>v. rows b ! i ! j = Assigned v \<longrightarrow> v = sol ! i ! j)
        \<and> (\<forall>l. rows b ! i ! j = Candidates l \<longrightarrow> sol ! i ! j \<in> set l))"

definition extends :: "board \<Rightarrow> board \<Rightarrow> bool" where
  "extends b' b \<longleftrightarrow>
     (\<forall>i < board_size. \<forall>j < board_size. \<forall>v.
        rows b ! i ! j = Assigned v \<longrightarrow> rows b' ! i ! j = Assigned v)"

lemma peer_sym: "peer p q \<longleftrightarrow> peer q p"
  by (auto simp: peer_def)

lemma set_remove1_pow_subset: "set ((remove1 v ^^ k) l) \<subseteq> set l"
  by (induction k) (auto dest: notin_set_remove1)

lemma set_remove1_pow_other: "x \<in> set l \<Longrightarrow> x \<noteq> v \<Longrightarrow> x \<in> set ((remove1 v ^^ k) l)"
  by (induction k) auto

lemma count_peers_list_pos:
  "i < board_size \<Longrightarrow> j < board_size \<Longrightarrow> peer (r, c) (i, j) \<Longrightarrow>
   0 < count_list (peers_list r c) (i, j)"
  using count_list_0_iff [of "peers_list r c" "(i, j)"] by (simp add: peers_list_iff)

lemma count_peers_list_zero:
  "i < board_size \<Longrightarrow> j < board_size \<Longrightarrow> \<not> peer (r, c) (i, j) \<Longrightarrow>
   count_list (peers_list r c) (i, j) = 0"
  by (simp add: count_list_0_iff peers_list_iff)

text \<open>The squares of the board after \<open>update\<close>, by case.\<close>

lemma update_square:
  assumes "grid9 (rows b)" "r < board_size" "c < board_size" "update b r c v = Inr b'"
    and "i < board_size" "j < board_size"
  shows "rows b' ! i ! j =
           (if (i, j) = (r, c) then Assigned v
            else case rows b ! i ! j of
                   Assigned n \<Rightarrow> Assigned n
                 | Candidates l \<Rightarrow>
                     Candidates ((remove1 v ^^ count_list (peers_list r c) (i, j)) l))"
proof -
  from update_cells [OF assms(1-3), of v] assms(4) have
    "\<forall>i < board_size. \<forall>j < board_size.
                rows b' ! i ! j =
                  (if (i, j) = (r, c) then Assigned v
                   else ((\<lambda>x. remove_if_exists x v) ^^ count_list (peers_list r c) (i, j))
                          (rows b ! i ! j))"
    by auto
  with assms(5,6) show ?thesis
    by (cases "rows b ! i ! j") (auto simp: strike_Assigned strike_Candidates)
qed

lemma cell_ok_digits: "cell_ok (Candidates l) \<Longrightarrow> v \<in> set l \<Longrightarrow> 1 \<le> v \<and> v \<le> 9"
proof -
  assume "cell_ok (Candidates l)" "v \<in> set l"
  then obtain N where "l = nths (map int [1..<10]) N" by (auto simp: subseq_conv_nths)
  with \<open>v \<in> set l\<close> have "v \<in> set (map int [1..<10])" by (auto dest: in_set_nthsD)
  then show ?thesis by auto
qed

lemma wf_board_cell: "wf_board b \<Longrightarrow> i < board_size \<Longrightarrow> j < board_size \<Longrightarrow> cell_ok (rows b ! i ! j)"
  by (simp add: wf_board_nth)

lemma update_sound:
  assumes s: "sound b" and rng: "r < board_size" "c < board_size"
    and cell: "rows b ! r ! c = Candidates choices" and v: "v \<in> set choices"
    and upd: "update b r c v = Inr b'"
  shows "sound b'"
proof -
  from s have wf: "wf_board b" by (simp add: sound_def)
  then have g: "grid9 (rows b)" by (simp add: wf_board_def)
  note sq = update_square [OF g rng upd]
  from update_wf [OF wf rng, of v] upd have wf': "wf_board b'" and
    cnt: "num_nums_placed b' = num_nums_placed b + 1" by auto
  from cell have "get_cell (rows b) r c = Inr (Candidates choices)"
    by (simp add: get_cell_grid9 [OF g rng])
  from update_open_squares [OF this upd] s cnt
  have count: "num_nums_placed b' + int (open_squares (rows b')) = 81"
    by (simp add: sound_def)
  from wf_board_cell [OF wf rng] cell have "cell_ok (Candidates choices)" by simp
  from cell_ok_digits [OF this v] have digit: "1 \<le> v \<and> v \<le> 9" .
  have old: "1 \<le> n \<and> n \<le> 9 \<and> rows b ! i' ! j' \<noteq> Assigned n
             \<and> (\<forall>l. rows b ! i' ! j' = Candidates l \<longrightarrow> n \<notin> set l)"
    if "i < board_size" "j < board_size" "rows b ! i ! j = Assigned n"
       "i' < board_size" "j' < board_size" "peer (i, j) (i', j')" "(i', j') \<noteq> (i, j)"
    for i j n i' j'
    using s that unfolding sound_def by blast
  have range: "1 \<le> n \<and> n \<le> 9"
    if "i < board_size" "j < board_size" "rows b ! i ! j = Assigned n" for i j n
    using s that unfolding sound_def by blast
  have new: "1 \<le> w \<and> w \<le> 9
             \<and> (\<forall>i' < board_size. \<forall>j' < board_size.
                   peer (i, j) (i', j') \<and> (i', j') \<noteq> (i, j) \<longrightarrow>
                   rows b' ! i' ! j' \<noteq> Assigned w
                   \<and> (\<forall>l. rows b' ! i' ! j' = Candidates l \<longrightarrow> w \<notin> set l))"
    if ij: "i < board_size" "j < board_size" and w: "rows b' ! i ! j = Assigned w" for i j w
  proof (cases "(i, j) = (r, c)")
    case True
    with w sq [OF ij] have wv: "w = v" by simp
    have "rows b' ! i' ! j' \<noteq> Assigned v
          \<and> (\<forall>l. rows b' ! i' ! j' = Candidates l \<longrightarrow> v \<notin> set l)"
      if p: "i' < board_size" "j' < board_size" "peer (r, c) (i', j')" "(i', j') \<noteq> (r, c)"
      for i' j'
    proof (cases "rows b ! i' ! j'")
      case (Assigned n)
      from p(3) have "peer (i', j') (r, c)" by (simp add: peer_sym)
      from old [OF p(1,2) Assigned rng this] p(4) cell v have "n \<noteq> v" by auto
      with sq [OF p(1,2)] p(4) Assigned show ?thesis by (auto split: if_splits)
    next
      case (Candidates l)
      from wf_board_cell [OF wf p(1,2)] Candidates have "distinct l"
        by (simp add: cell_ok_distinct)
      from remove1_pow_distinct [OF this count_peers_list_pos [OF p(1,2,3)], of v]
        sq [OF p(1,2)] p(4) Candidates
      show ?thesis by (auto split: if_splits)
    qed
    with True wv digit show ?thesis by simp
  next
    case False
    with w sq [OF ij] have ow: "rows b ! i ! j = Assigned w"
      by (cases "rows b ! i ! j") (auto split: if_splits)
    have "rows b' ! i' ! j' \<noteq> Assigned w
          \<and> (\<forall>l. rows b' ! i' ! j' = Candidates l \<longrightarrow> w \<notin> set l)"
      if p: "i' < board_size" "j' < board_size" "peer (i, j) (i', j')" "(i', j') \<noteq> (i, j)"
      for i' j'
    proof (cases "(i', j') = (r, c)")
      case True
      from old [OF ij ow p] True cell v have "w \<noteq> v" by auto
      with True sq [OF p(1,2)] show ?thesis by (auto split: if_splits)
    next
      case other: False
      show ?thesis
      proof (cases "rows b ! i' ! j'")
        case (Assigned n)
        with old [OF ij ow p] sq [OF p(1,2)] other show ?thesis by (auto split: if_splits)
      next
        case (Candidates l)
        with old [OF ij ow p] have "w \<notin> set l" by simp
        with set_remove1_pow_subset [where v = v and k = "count_list (peers_list r c) (i', j')" and l = l]
          sq [OF p(1,2)] other Candidates
        show ?thesis by (auto split: if_splits)
      qed
    qed
    with range [OF ij ow] show ?thesis by simp
  qed
  from wf' count new show ?thesis unfolding sound_def by blast
qed

lemma update_extends:
  assumes "grid9 (rows b)" "r < board_size" "c < board_size"
    and "rows b ! r ! c = Candidates choices" and "update b r c v = Inr b'"
  shows "extends b' b"
  unfolding extends_def using update_square [OF assms(1-3,5)] assms(4) by auto

lemma update_admits:
  assumes g: "grid9 (rows b)" and rng: "r < board_size" "c < board_size"
    and a: "admits b sol"
    and differ: "\<And>i j. i < board_size \<Longrightarrow> j < board_size \<Longrightarrow> peer (r, c) (i, j) \<Longrightarrow>
                   (i, j) \<noteq> (r, c) \<Longrightarrow> sol ! i ! j \<noteq> sol ! r ! c"
    and upd: "update b r c (sol ! r ! c) = Inr b'"
  shows "admits b' sol"
  unfolding admits_def
proof (intro allI impI)
  fix i j
  assume ij: "i < board_size" "j < board_size"
  note sq = update_square [OF g rng upd ij]
  show "(\<forall>v. rows b' ! i ! j = Assigned v \<longrightarrow> v = sol ! i ! j)
        \<and> (\<forall>l. rows b' ! i ! j = Candidates l \<longrightarrow> sol ! i ! j \<in> set l)"
  proof (cases "(i, j) = (r, c)")
    case True
    with sq show ?thesis by simp
  next
    case False
    show ?thesis
    proof (cases "rows b ! i ! j")
      case (Assigned n)
      with a ij sq False show ?thesis by (auto simp: admits_def)
    next
      case (Candidates l)
      with a ij have mem: "sol ! i ! j \<in> set l" by (simp add: admits_def)
      show ?thesis
      proof (cases "peer (r, c) (i, j)")
        case True
        from differ [OF ij True False] mem
        have "sol ! i ! j \<in> set ((remove1 (sol ! r ! c) ^^ count_list (peers_list r c) (i, j)) l)"
          by (rule set_remove1_pow_other [rotated])
        with sq False Candidates show ?thesis by (auto split: if_splits)
      next
        case np: False
        with sq False Candidates mem count_peers_list_zero [OF ij np] show ?thesis
          by (auto split: if_splits)
      qed
    qed
  qed
qed


text \<open>Solutions, square by square: peers hold different digits.\<close>

lemma subgrid_coordinates_corner:
  "subgrid_coordinates (i div 3 * 3) (j div 3 * 3) = subgrid_coordinates i j"
  by (simp add: subgrid_coordinates_def)

lemma distinct_subgrid_coordinates: "distinct (subgrid_coordinates r c)"
  by (simp add: subgrid_coordinates_def Let_def upt_rec)

lemma corner_cases: "i < 9 \<Longrightarrow> i div 3 * 3 \<in> {0, 3, 6::nat}"
  by (simp add: insert_commute) arith

lemma valid_solution_shape:
  "valid_solution sol \<Longrightarrow> i < 9 \<Longrightarrow> length sol = 9 \<and> length (sol ! i) = 9"
  by (auto simp: valid_solution_def list_all_iff)

lemma valid_solution_digit:
  assumes "valid_solution sol" "i < 9" "j < 9"
  shows "1 \<le> sol ! i ! j \<and> sol ! i ! j \<le> 9"
proof -
  from assms(1,2) have "sol ! i \<in> set sol" "length (sol ! i) = 9"
    by (auto simp: valid_solution_def list_all_iff)
  with assms(1,3) have "sol ! i ! j \<in> set (sol ! i)" by simp
  with assms(1) \<open>sol ! i \<in> set sol\<close> show ?thesis
    by (auto simp: valid_solution_def list_all_iff)
qed

lemma valid_solution_peers:
  assumes sol: "valid_solution sol" and ij: "i < 9" "j < 9" and ij': "i' < 9" "j' < 9"
    and p: "peer (i, j) (i', j')" and ne: "(i, j) \<noteq> (i', j')"
  shows "sol ! i ! j \<noteq> sol ! i' ! j'"
proof -
  from p consider (row) "i = i'" | (col) "j = j'"
    | (box) "i div 3 = i' div 3" "j div 3 = j' div 3"
    by (auto simp: peer_def)
  then show ?thesis
  proof cases
    case row
    from sol ij(1) have "distinct (sol ! i)" "length (sol ! i) = 9"
      by (auto simp: valid_solution_def list_all_iff)
    with row ne ij(2) ij'(2) show ?thesis by (simp add: nth_eq_iff_index_eq)
  next
    case col
    from sol ij(2) have d: "distinct (map (\<lambda>row. row ! j) sol)" and l: "length sol = 9"
      by (auto simp: valid_solution_def list_all_iff)
    from col ne have "i \<noteq> i'" by simp
    with nth_eq_iff_index_eq [OF d, of i i'] l ij(1) ij'(1) col show ?thesis by simp
  next
    case box
    let ?r = "i div 3 * 3" and ?c = "j div 3 * 3"
    let ?f = "\<lambda>(i, j). sol ! i ! j"
    from corner_cases [OF ij(1)] corner_cases [OF ij(2)] sol
    have "distinct (map ?f (subgrid_coordinates ?r ?c))"
      unfolding valid_solution_def by auto
    then have "inj_on ?f (set (subgrid_coordinates i j))"
      by (simp add: subgrid_coordinates_corner distinct_map)
    moreover from box have "(i, j) \<in> set (subgrid_coordinates i j)"
      "(i', j') \<in> set (subgrid_coordinates i j)"
      by (simp_all add: subgrid_coordinates_iff)
    ultimately have "?f (i, j) \<noteq> ?f (i', j')" using ne by (metis inj_onD)
    then show ?thesis by simp
  qed
qed

lemma valid_solutionI:
  assumes len: "length sol = 9" "\<And>i. i < 9 \<Longrightarrow> length (sol ! i) = 9"
    and digit: "\<And>i j. i < 9 \<Longrightarrow> j < 9 \<Longrightarrow> 1 \<le> sol ! i ! j \<and> sol ! i ! j \<le> 9"
    and differ: "\<And>i j i' j'. i < 9 \<Longrightarrow> j < 9 \<Longrightarrow> i' < 9 \<Longrightarrow> j' < 9 \<Longrightarrow>
                   peer (i, j) (i', j') \<Longrightarrow> (i, j) \<noteq> (i', j') \<Longrightarrow> sol ! i ! j \<noteq> sol ! i' ! j'"
  shows "valid_solution sol"
proof -
  have rows_ok: "length row = 9 \<and> list_all (\<lambda>v. 1 \<le> v \<and> v \<le> 9) row \<and> distinct row"
    if "row \<in> set sol" for row
  proof -
    from that len(1) obtain i where i: "i < 9" "row = sol ! i"
      by (auto simp: in_set_conv_nth)
    have "distinct (sol ! i)"
      unfolding distinct_conv_nth using len(2) [OF i(1)] differ [OF i(1) _ i(1)]
      by (auto simp: peer_def)
    moreover have "list_all (\<lambda>v. 1 \<le> v \<and> v \<le> 9) (sol ! i)"
      unfolding list_all_length using len(2) [OF i(1)] digit [OF i(1)] by simp
    ultimately show ?thesis using i len(2) by simp
  qed
  have cols_ok: "distinct (map (\<lambda>row. row ! c) sol)" if "c < 9" for c
    unfolding distinct_conv_nth using len(1) differ [OF _ that _ that]
    by (auto simp: peer_def)
  have boxes_ok: "distinct (map (\<lambda>(i, j). sol ! i ! j) (subgrid_coordinates r c))"
    if "r < 9" "c < 9" for r c
  proof -
    have "n < 9" if "n div 3 = m div 3" "m < 9" for n m :: nat
      using that by arith
    with that have in9: "i < 9 \<and> j < 9" if "(i, j) \<in> set (subgrid_coordinates r c)" for i j
      using that by (auto simp: subgrid_coordinates_iff)
    have "inj_on (\<lambda>(i, j). sol ! i ! j) (set (subgrid_coordinates r c))"
    proof (rule inj_onI)
      fix p q
      assume pq: "p \<in> set (subgrid_coordinates r c)" "q \<in> set (subgrid_coordinates r c)"
        and eq: "(case p of (i, j) \<Rightarrow> sol ! i ! j) = (case q of (i, j) \<Rightarrow> sol ! i ! j)"
      obtain i j i' j' where [simp]: "p = (i, j)" "q = (i', j')" by (cases p, cases q) auto
      from pq have "peer (i, j) (i', j')" by (simp add: subgrid_coordinates_iff peer_def)
      with differ [of i j i' j'] in9 [of i j] in9 [of i' j'] pq eq show "p = q" by auto
    qed
    then show ?thesis by (simp add: distinct_map distinct_subgrid_coordinates)
  qed
  show ?thesis
    unfolding valid_solution_def using len(1) rows_ok cols_ok boxes_ok
    by (simp add: list_all_iff)
qed


text \<open>The digits of a board, and the clues it carries.\<close>

definition digits :: "board \<Rightarrow> int list list" where
  "digits b = map (map (\<lambda>x. case x of Assigned v \<Rightarrow> v | Candidates l \<Rightarrow> 0)) (rows b)"

definition carries :: "board \<Rightarrow> (nat \<times> nat \<times> int) list \<Rightarrow> bool" where
  "carries b clues \<longleftrightarrow> list_all (\<lambda>(r, c, v). rows b ! r ! c = Assigned v) clues"

lemma sound_goal_assigned:
  assumes "sound b" "goal_test b" "row \<in> set (rows b)" "x \<in> set row"
  shows "\<exists>v. x = Assigned v"
proof -
  from assms(1,2) have "open_squares (rows b) = 0"
    by (simp add: sound_def goal_test_def board_size_def)
  then have "filter is_list (concat (rows b)) = []" by (simp add: open_squares_def)
  with assms(3,4) have "\<not> is_list x" by (auto simp: filter_empty_conv)
  then show ?thesis by (cases x) simp_all
qed

lemma sound_goal_nth:
  assumes "sound b" "goal_test b" "i < 9" "j < 9"
  shows "rows b ! i ! j = Assigned (digits b ! i ! j) \<and> length (rows b) = 9
         \<and> length (rows b ! i) = 9"
proof -
  from assms(1) have g: "grid9 (rows b)" by (simp add: sound_def wf_board_def)
  with assms(3,4) have l: "length (rows b) = 9" "length (rows b ! i) = 9"
    by (simp_all add: grid9_def board_size_def)
  with assms(3,4) have "rows b ! i \<in> set (rows b)" "rows b ! i ! j \<in> set (rows b ! i)"
    by simp_all
  from sound_goal_assigned [OF assms(1,2) this] obtain v where "rows b ! i ! j = Assigned v" ..
  with l assms(3,4) show ?thesis by (simp add: digits_def)
qed

lemma sound_goal_rows:
  assumes "sound b" "goal_test b"
  shows "rows b = map (map Assigned) (digits b)"
proof -
  have inner: "map (Assigned \<circ> (\<lambda>x. case x of Assigned v \<Rightarrow> v | Candidates l \<Rightarrow> 0)) row = row"
    if "row \<in> set (rows b)" for row
  proof (rule map_idI)
    fix x assume "x \<in> set row"
    from sound_goal_assigned [OF assms that this]
    show "(Assigned \<circ> (\<lambda>x. case x of Assigned v \<Rightarrow> v | Candidates l \<Rightarrow> 0)) x = x" by auto
  qed
  have "map (map (Assigned \<circ> (\<lambda>x. case x of Assigned v \<Rightarrow> v | Candidates l \<Rightarrow> 0))) (rows b)
             = rows b"
    by (rule map_idI) (rule inner)
  then show ?thesis by (simp add: digits_def)
qed

lemma sound_goal_solution:
  assumes s: "sound b" and g: "goal_test b"
  shows "valid_solution (digits b)"
proof (rule valid_solutionI)
  show "length (digits b) = 9" using sound_goal_nth [OF s g, of 0 0] by (simp add: digits_def)
next
  fix i :: nat assume "i < 9"
  then show "length (digits b ! i) = 9"
    using sound_goal_nth [OF s g, of i 0] by (simp add: digits_def)
next
  fix i j :: nat assume ij: "i < 9" "j < 9"
  from sound_goal_nth [OF s g ij] s ij show "1 \<le> digits b ! i ! j \<and> digits b ! i ! j \<le> 9"
    unfolding sound_def board_size_def by blast
next
  fix i j i' j' :: nat
  assume ij: "i < 9" "j < 9" and ij': "i' < 9" "j' < 9"
    and p: "peer (i, j) (i', j')" and ne: "(i, j) \<noteq> (i', j')"
  from sound_goal_nth [OF s g ij] have a: "rows b ! i ! j = Assigned (digits b ! i ! j)" by simp
  from sound_goal_nth [OF s g ij'] have a': "rows b ! i' ! j' = Assigned (digits b ! i' ! j')"
    by simp
  from s ij a ij' p ne have "rows b ! i' ! j' \<noteq> Assigned (digits b ! i ! j)"
    unfolding sound_def board_size_def by metis
  with a' show "digits b ! i ! j \<noteq> digits b ! i' ! j'" by auto
qed

lemma carries_meets:
  assumes "sound b" "goal_test b" "carries b clues"
    and "list_all (\<lambda>(r, c, v). r < 9 \<and> c < 9) clues"
  shows "meets (digits b) clues"
  unfolding meets_def list_all_iff
proof (intro ballI)
  fix clue assume m: "clue \<in> set clues"
  obtain r c v where clue: "clue = (r, c, v)" by (cases clue)
  from m clue assms(3,4) have rc: "r < 9" "c < 9" "rows b ! r ! c = Assigned v"
    by (auto simp: carries_def list_all_iff)
  with sound_goal_nth [OF assms(1,2) rc(1,2)] clue
  show "case clue of (r, c, v) \<Rightarrow> r < 9 \<and> c < 9 \<and> digits b ! r ! c = v" by simp
qed


text \<open>The seed board: the clues applied to a fresh board.\<close>

lemma Board_init_nth:
  "i < board_size \<Longrightarrow> j < board_size \<Longrightarrow> rows Board_init ! i ! j = Candidates (map int [1..<10])"
  by (simp add: Board_init_def)

lemma open_squares_Board_init: "open_squares (rows Board_init) = 81"
  by (simp add: open_squares_def Board_init_def board_size_def filter_concat length_concat
      comp_def sum_list_triv)

lemma sound_Board_init: "sound Board_init"
  unfolding sound_def
  by (simp add: wf_board_init open_squares_Board_init Board_init_nth) (simp add: Board_init_def)

lemma admits_Board_init: "valid_solution sol \<Longrightarrow> admits Board_init sol"
  unfolding admits_def
proof (intro allI impI)
  fix i j assume sol: "valid_solution sol" and ij: "i < board_size" "j < board_size"
  from valid_solution_digit [OF sol, of i j] ij
  have "sol ! i ! j \<in> set (map int [1..<10])"
    by (auto simp: board_size_def image_iff intro!: bexI [of _ "nat (sol ! i ! j)"])
  with ij show "(\<forall>v. rows Board_init ! i ! j = Assigned v \<longrightarrow> v = sol ! i ! j)
        \<and> (\<forall>l. rows Board_init ! i ! j = Candidates l \<longrightarrow> sol ! i ! j \<in> set l)"
    by (simp add: Board_init_nth)
qed

lemma extends_trans: "extends b3 b2 \<Longrightarrow> extends b2 b1 \<Longrightarrow> extends b3 b1"
  by (simp add: extends_def)

lemma updates_clues:
  assumes sol: "valid_solution sol"
  shows "sound b \<Longrightarrow> admits b sol \<Longrightarrow> meets sol clues \<Longrightarrow>
         distinct (map (\<lambda>(r, c, v). (r, c)) clues) \<Longrightarrow>
         list_all (\<lambda>(r, c, v). is_list (rows b ! r ! c)) clues \<Longrightarrow>
         \<exists>b'. updates clues b = Inr b' \<and> sound b' \<and> admits b' sol \<and> carries b' clues
              \<and> extends b' b"
proof (induction clues arbitrary: b)
  case Nil
  then show ?case by (simp add: updates_def carries_def extends_def)
next
  case (Cons clue clues)
  obtain r c v where clue: "clue = (r, c, v)" by (cases clue)
  from Cons.prems(3) clue have rng: "r < board_size" "c < board_size" and v: "v = sol ! r ! c"
    by (simp_all add: meets_def board_size_def)
  from Cons.prems(5) clue obtain l where cell: "rows b ! r ! c = Candidates l"
    by (cases "rows b ! r ! c") simp_all
  from Cons.prems(1) have wf: "wf_board b" by (simp add: sound_def)
  then have g: "grid9 (rows b)" by (simp add: wf_board_def)
  from update_wf [OF wf rng, of v] obtain b1 where b1: "update b r c v = Inr b1" by blast
  from Cons.prems(2) rng cell v have mem: "v \<in> set l" by (simp add: admits_def)
  have s1: "sound b1" by (rule update_sound [OF Cons.prems(1) rng cell mem b1])
  have differ: "sol ! i ! j \<noteq> sol ! r ! c"
    if "i < board_size" "j < board_size" "peer (r, c) (i, j)" "(i, j) \<noteq> (r, c)" for i j
    using valid_solution_peers [OF sol, of i j r c] that rng
    by (simp add: board_size_def peer_sym [of "(i, j)"])
  have a1: "admits b1 sol"
    by (rule update_admits [OF g rng Cons.prems(2) differ b1 [unfolded v]])
  have e1: "extends b1 b" by (rule update_extends [OF g rng cell b1])
  have still: "list_all (\<lambda>(r, c, v). is_list (rows b1 ! r ! c)) clues"
    unfolding list_all_iff
  proof (intro ballI)
    fix clue' assume m: "clue' \<in> set clues"
    obtain r' c' v' where clue': "clue' = (r', c', v')" by (cases clue')
    from m clue' Cons.prems(3) have rng': "r' < board_size" "c' < board_size"
      by (auto simp: meets_def list_all_iff board_size_def)
    from m clue' clue Cons.prems(4) have "(r', c') \<noteq> (r, c)" by force
    moreover from m clue' Cons.prems(5) have "is_list (rows b ! r' ! c')"
      by (auto simp: list_all_iff)
    ultimately show "case clue' of (r, c, v) \<Rightarrow> is_list (rows b1 ! r ! c)"
      using update_square [OF g rng b1 rng'] clue'
      by (cases "rows b ! r' ! c'") (auto split: if_splits)
  qed
  from Cons.prems(3,4) have "meets sol clues" "distinct (map (\<lambda>(r, c, v). (r, c)) clues)"
    by (simp_all add: meets_def)
  from Cons.IH [OF s1 a1 this still] obtain b' where
    b': "updates clues b1 = Inr b'" "sound b'" "admits b' sol" "carries b' clues"
        "extends b' b1"
    by blast
  from update_square [OF g rng b1 rng] have "rows b1 ! r ! c = Assigned v" by simp
  with b'(5) rng have "rows b' ! r ! c = Assigned v" by (simp add: extends_def)
  with b'(4) clue have "carries b' (clue # clues)" by (simp add: carries_def)
  moreover from b'(1) b1 clue have "updates (clue # clues) b = Inr b'"
    by (simp add: updates_def)
  ultimately show ?case using b'(2,3) extends_trans [OF b'(5) e1] by blast
qed

lemma seed_board:
  assumes "valid_solution sol" "meets sol clues" "distinct (map (\<lambda>(r, c, v). (r, c)) clues)"
  shows "\<exists>seed. updates clues Board_init = Inr seed \<and> sound seed \<and> admits seed sol
               \<and> carries seed clues"
proof -
  from assms(2) have "list_all (\<lambda>(r, c, v). is_list (rows Board_init ! r ! c)) clues"
    by (auto simp: meets_def list_all_iff Board_init_nth board_size_def)
  from updates_clues [OF assms(1) sound_Board_init admits_Board_init [OF assms(1)] assms(2,3) this]
  show ?thesis by blast
qed


text \<open>One iteration of the loop keeps the invariants of the frontier.\<close>

lemma open_square_exists:
  assumes "grid9 g" "0 < open_squares g"
  shows "\<exists>i < board_size. \<exists>j < board_size. \<exists>l. g ! i ! j = Candidates l"
proof -
  from assms(2) have "filter is_list (concat g) \<noteq> []" by (simp add: open_squares_def)
  then obtain row x where rx: "row \<in> set g" "x \<in> set row" "is_list x"
    by (auto simp: filter_empty_conv)
  from rx(1) assms(1) obtain i where i: "i < board_size" "g ! i = row"
    by (auto simp: in_set_conv_nth grid9_def)
  from rx(1,2) assms(1) obtain j where j: "j < board_size" "row ! j = x"
    by (auto simp: in_set_conv_nth grid9_def)
  from rx(3) obtain l where "x = Candidates l" by (cases x) simp_all
  with i j show ?thesis by blast
qed

lemma find_most_constrained_cell_open:
  assumes wf: "wf_board b" and op: "0 < open_squares (rows b)"
  shows "\<exists>r c l. find_most_constrained_cell b = Inr (r, c) \<and> r < board_size \<and> c < board_size
                 \<and> rows b ! r ! c = Candidates l"
proof -
  from wf have g: "grid9 (rows b)" by (simp add: wf_board_def)
  from find_most_constrained_cell_grid9 [OF g] obtain bl r c where
    res: "find_most_constrained_cell b = Inr (r, c)" and
    best: "best_among (rows b) {(i, j). i < board_size \<and> j < board_size} (bl, r, c)"
    by blast
  from open_square_exists [OF g op] obtain i j l where
    ij: "i < board_size" "j < board_size" "rows b ! i ! j = Candidates l"
    by blast
  from wf_board_cell [OF wf ij(1,2)] ij(3) have "length l \<le> 9" by (simp add: cell_ok_length)
  moreover from best_among_ge [OF best _ ij(3)] ij(1,2) have "bl \<le> length l" by simp
  ultimately have "bl \<noteq> 10" by simp
  with best have "r < board_size \<and> c < board_size \<and> (\<exists>l. rows b ! r ! c = Candidates l)"
    unfolding best_among_def by auto
  with res show ?thesis by blast
qed

lemma branch_total:
  "\<forall>v \<in> set vs. \<exists>ch. update cand r c v = Inr ch \<Longrightarrow>
   \<exists>children. branch push cand r c vs frontier = Inr (foldl push frontier children)
             \<and> list_all2 (\<lambda>v ch. update cand r c v = Inr ch) vs children"
proof (induction vs arbitrary: frontier)
  case Nil
  then show ?case by simp
next
  case (Cons v vs)
  from Cons.prems obtain ch where ch: "update cand r c v = Inr ch" by auto
  from Cons.prems have "\<forall>v \<in> set vs. \<exists>ch. update cand r c v = Inr ch" by simp
  from Cons.IH [OF this, of "push frontier ch"] obtain children where
    "branch push cand r c vs (push frontier ch) = Inr (foldl push (push frontier ch) children)"
    "list_all2 (\<lambda>v ch. update cand r c v = Inr ch) vs children"
    by blast
  with ch have "branch push cand r c (v # vs) frontier = Inr (foldl push frontier (ch # children))
      \<and> list_all2 (\<lambda>v ch. update cand r c v = Inr ch) (v # vs) (ch # children)"
    by (simp add: deepcopy_def)
  then show ?case by blast
qed

lemma admits_no_failure:
  assumes "grid9 (rows b)" "admits b sol"
  shows "\<not> failure_test b"
proof
  assume "failure_test b"
  then obtain row where row: "row \<in> set (rows b)" "Candidates [] \<in> set row"
    by (auto simp: failure_test_def failure_test_rows_iff)
  from row(1) assms(1) obtain i where i: "i < board_size" "rows b ! i = row"
    by (auto simp: in_set_conv_nth grid9_def)
  from row assms(1) obtain j where j: "j < board_size" "row ! j = Candidates []"
    by (auto simp: in_set_conv_nth grid9_def)
  from assms(2) i(1) j(1) have "\<forall>l. rows b ! i ! j = Candidates l \<longrightarrow> sol ! i ! j \<in> set l"
    by (simp add: admits_def)
  with i(2) j(2) show False by simp
qed

lemma list_all2_right:
  assumes "list_all2 P xs ys" "y \<in> set ys"
  shows "\<exists>x \<in> set xs. P x y"
proof -
  from assms(2) obtain n where n: "n < length ys" "ys ! n = y" by (auto simp: in_set_conv_nth)
  from list_all2_nthD2 [OF assms(1) n(1)] list_all2_lengthD [OF assms(1)] n
  show ?thesis by (auto intro!: bexI [of _ "xs ! n"])
qed

lemma list_all2_left:
  assumes "list_all2 P xs ys" "x \<in> set xs"
  shows "\<exists>y \<in> set ys. P x y"
proof -
  from assms(2) obtain n where n: "n < length xs" "xs ! n = x" by (auto simp: in_set_conv_nth)
  from list_all2_nthD [OF assms(1) n(1)] list_all2_lengthD [OF assms(1)] n
  show ?thesis by (auto intro!: bexI [of _ "ys ! n"])
qed

lemma extends_carries:
  assumes "extends b' b" "carries b clues" "list_all (\<lambda>(r, c, v). r < 9 \<and> c < 9) clues"
  shows "carries b' clues"
  using assms unfolding extends_def carries_def list_all_iff board_size_def by fastforce

lemma set_foldl_push:
  "keeps_all push \<Longrightarrow> set (foldl push frontier children) = set frontier \<union> set children"
  using arg_cong [OF mset_foldl_push, of push set_mset frontier children] by simp

lemma iteration_progress:
  assumes k: "keeps_all push" and sol: "valid_solution sol"
    and rng: "list_all (\<lambda>(r, c, v). r < 9 \<and> c < 9) clues"
    and inv: "\<forall>b \<in> set frontier. sound b \<and> carries b clues"
    and ex: "\<exists>b \<in> set frontier. admits b sol"
  shows "(\<exists>d. iteration push frontier = Return d \<and> sound d \<and> carries d clues \<and> goal_test d)
         \<or> (\<exists>frontier'. iteration push frontier = Continue frontier'
               \<and> (\<forall>b \<in> set frontier'. sound b \<and> carries b clues)
               \<and> (\<exists>b \<in> set frontier'. admits b sol))"
proof -
  from ex obtain cand rest where fr: "frontier = cand # rest" by (cases frontier) auto
  from inv fr have sc: "sound cand" "carries cand clues" by simp_all
  then have wf: "wf_board cand" by (simp add: sound_def)
  then have g: "grid9 (rows cand)" by (simp add: wf_board_def)
  show ?thesis
  proof (cases "goal_test cand")
    case True
    with fr sc show ?thesis by (simp add: iteration_def pop_def)
  next
    case ng: False
    show ?thesis
    proof (cases "failure_test cand")
      case True
      with ex fr admits_no_failure [OF g] have "\<exists>b \<in> set rest. admits b sol" by auto
      with True ng fr inv show ?thesis by (simp add: iteration_def pop_def)
    next
      case nf: False
      from sc(1) ng have "0 < open_squares (rows cand)"
        by (auto simp: sound_def goal_test_def board_size_def)
      from find_most_constrained_cell_open [OF wf this] obtain r c choices where
        f: "find_most_constrained_cell cand = Inr (r, c)" and
        rc: "r < board_size" "c < board_size" and
        cell: "rows cand ! r ! c = Candidates choices"
        by blast
      from update_wf [OF wf rc] have "\<forall>v \<in> set choices. \<exists>ch. update cand r c v = Inr ch"
        by blast
      from branch_total [OF this, of push rest] obtain children where
        br: "branch push cand r c choices rest = Inr (foldl push rest children)" and
        ch: "list_all2 (\<lambda>v ch. update cand r c v = Inr ch) choices children"
        by blast
      have it: "iteration push frontier = Continue (foldl push rest children)"
        using fr ng nf f cell br by (simp add: iteration_def pop_def get_cell_grid9 [OF g rc])
      have child: "sound b \<and> carries b clues" if "b \<in> set children" for b
      proof -
        from list_all2_right [OF ch that] obtain v where
          v: "v \<in> set choices" "update cand r c v = Inr b"
          by blast
        from update_sound [OF sc(1) rc cell v]
          extends_carries [OF update_extends [OF g rc cell v(2)] sc(2) rng]
        show ?thesis by simp
      qed
      have "\<exists>b \<in> set rest \<union> set children. admits b sol"
      proof (cases "admits cand sol")
        case True
        with rc cell have mem: "sol ! r ! c \<in> set choices" by (simp add: admits_def)
        from list_all2_left [OF ch this] obtain b where
          b: "b \<in> set children" "update cand r c (sol ! r ! c) = Inr b"
          by blast
        have differ: "sol ! i ! j \<noteq> sol ! r ! c"
          if "i < board_size" "j < board_size" "peer (r, c) (i, j)" "(i, j) \<noteq> (r, c)" for i j
          using valid_solution_peers [OF sol, of i j r c] that rc
          by (simp add: board_size_def peer_sym [of "(i, j)"])
        from update_admits [OF g rc True differ b(2)] b(1) show ?thesis by blast
      next
        case False
        with ex fr show ?thesis by auto
      qed
      with it inv fr child show ?thesis by (auto simp: set_foldl_push [OF k])
    qed
  qed
qed


text \<open>Both loops end with a sound goal board that carries the clues.\<close>

lemma DFS_loop_solves:
  assumes sol: "valid_solution sol" and rng: "list_all (\<lambda>(r, c, v). r < 9 \<and> c < 9) clues"
  shows "\<forall>b \<in> set stack. sound b \<and> carries b clues \<Longrightarrow> \<exists>b \<in> set stack. admits b sol \<Longrightarrow>
         \<exists>d. DFS_loop stack = Inr (Some d) \<and> sound d \<and> carries d clues \<and> goal_test d"
proof (induction stack rule: DFS_loop.induct)
  case (1 stack)
  from "1.prems"(2) have ne: "\<not> is_empty stack" by (auto simp: is_empty_def)
  from iteration_progress [OF keeps_all_stack_push sol rng "1.prems"] show ?case
  proof (elim disjE exE conjE)
    fix d
    assume "iteration stack_push stack = Return d" "sound d" "carries d clues" "goal_test d"
    with ne show ?thesis by (simp add: DFS_loop.simps [of stack])
  next
    fix stack'
    assume it: "iteration stack_push stack = Continue stack'"
      and inv: "\<forall>b \<in> set stack'. sound b \<and> carries b clues"
      and ex: "\<exists>b \<in> set stack'. admits b sol"
    from "1.IH" [OF ne it inv ex] ne it show ?thesis by (simp add: DFS_loop.simps [of stack])
  qed
qed

lemma BFS_loop_solves:
  assumes sol: "valid_solution sol" and rng: "list_all (\<lambda>(r, c, v). r < 9 \<and> c < 9) clues"
  shows "\<forall>b \<in> set queue. sound b \<and> carries b clues \<Longrightarrow> \<exists>b \<in> set queue. admits b sol \<Longrightarrow>
         \<exists>d. BFS_loop queue = Inr (Some d) \<and> sound d \<and> carries d clues \<and> goal_test d"
proof (induction queue rule: BFS_loop.induct)
  case (1 queue)
  from "1.prems"(2) have ne: "\<not> is_empty queue" by (auto simp: is_empty_def)
  from iteration_progress [OF keeps_all_queue_push sol rng "1.prems"] show ?case
  proof (elim disjE exE conjE)
    fix d
    assume "iteration queue_push queue = Return d" "sound d" "carries d clues" "goal_test d"
    with ne show ?thesis by (simp add: BFS_loop.simps [of queue])
  next
    fix queue'
    assume it: "iteration queue_push queue = Continue queue'"
      and inv: "\<forall>b \<in> set queue'. sound b \<and> carries b clues"
      and ex: "\<exists>b \<in> set queue'. admits b sol"
    from "1.IH" [OF ne it inv ex] ne it show ?thesis by (simp add: BFS_loop.simps [of queue])
  qed
qed

lemma meets_range: "meets sol clues \<Longrightarrow> list_all (\<lambda>(r, c, v). r < 9 \<and> c < 9) clues"
  by (auto simp: meets_def list_all_iff)

text \<open>A returned board is a solution of the puzzle, written out in full.\<close>

lemma solved_board:
  assumes "sound d" "carries d clues" "goal_test d" "list_all (\<lambda>(r, c, v). r < 9 \<and> c < 9) clues"
  shows "valid_solution (digits d) \<and> meets (digits d) clues
         \<and> d = \<lparr> num_nums_placed = 81, rows = map (map Assigned) (digits d) \<rparr>"
proof -
  from assms(3) have "num_nums_placed d = 81" by (simp add: goal_test_def board_size_def)
  with sound_goal_rows [OF assms(1,3)]
  have "d = \<lparr> num_nums_placed = 81, rows = map (map Assigned) (digits d) \<rparr>"
    by (intro board.equality) simp_all
  with sound_goal_solution [OF assms(1,3)] carries_meets [OF assms(1,3,2,4)]
  show ?thesis by simp
qed

text \<open>
  C8. For a puzzle with a solution, given by clues at pairwise distinct coordinates, \<open>DFS\<close>
  and \<open>BFS\<close> on the seed board built from the clues each return a board on which
  \<open>goal_test\<close> is true; when the puzzle has exactly one solution, the two boards are equal,
  square by square and in the counter.
\<close>

theorem C8_drivers_solve_solvable_puzzles:
  assumes "valid_solution sol" and "meets sol clues"
    and "distinct (map (\<lambda>(r, c, v). (r, c)) clues)"
  shows "\<exists>seed d b. updates clues Board_init = Inr seed
           \<and> DFS seed = Inr (Some d) \<and> BFS seed = Inr (Some b)
           \<and> goal_test d \<and> goal_test b
           \<and> ((\<forall>sol'. valid_solution sol' \<and> meets sol' clues \<longrightarrow> sol' = sol) \<longrightarrow> d = b)"
proof -
  note rng = meets_range [OF assms(2)]
  from seed_board [OF assms] obtain seed where
    seed: "updates clues Board_init = Inr seed" "sound seed" "admits seed sol"
          "carries seed clues"
    by blast
  from DFS_loop_solves [OF assms(1) rng, of "[seed]"] seed obtain d where
    d: "DFS seed = Inr (Some d)" "sound d" "carries d clues" "goal_test d"
    by (auto simp: DFS_def stack_push_def)
  from BFS_loop_solves [OF assms(1) rng, of "[seed]"] seed obtain b where
    b: "BFS seed = Inr (Some b)" "sound b" "carries b clues" "goal_test b"
    by (auto simp: BFS_def queue_push_def)
  have "d = b" if "\<forall>sol'. valid_solution sol' \<and> meets sol' clues \<longrightarrow> sol' = sol"
  proof -
    from solved_board [OF d(2,3,4) rng] solved_board [OF b(2,3,4) rng] that
    have "digits d = sol" "digits b = sol"
      "d = \<lparr> num_nums_placed = 81, rows = map (map Assigned) (digits d) \<rparr>"
      "b = \<lparr> num_nums_placed = 81, rows = map (map Assigned) (digits b) \<rparr>"
      by blast+
    then show ?thesis by simp
  qed
  with seed(1) d(1,4) b(1,4) show ?thesis by blast
qed


text \<open>
  The first puzzle of the script (\<open>first_moves\<close>) with a solution of it, and the puzzle
  that gives every square of that solution as a clue.
\<close>

definition first_moves :: "(nat \<times> nat \<times> int) list" where
  "first_moves =
     [(0, 1, 7), (0, 7, 1), (1, 2, 9), (1, 3, 7), (1, 5, 4), (1, 6, 2), (2, 2, 8),
      (2, 3, 9), (2, 6, 3), (3, 1, 4), (3, 2, 3), (3, 4, 6), (4, 1, 9), (4, 3, 1),
      (4, 5, 8), (4, 7, 7), (5, 4, 2), (5, 6, 1), (5, 7, 5), (6, 2, 4), (6, 5, 5),
      (6, 6, 7), (7, 2, 7), (7, 3, 4), (7, 5, 1), (7, 6, 9), (8, 1, 3), (8, 7, 8)]"

definition first_solution :: "int list list" where
  "first_solution =
     [[4, 7, 2, 6, 8, 3, 5, 1, 9], [3, 1, 9, 7, 5, 4, 2, 6, 8], [5, 6, 8, 9, 1, 2, 3, 4, 7],
      [1, 4, 3, 5, 6, 7, 8, 9, 2], [2, 9, 5, 1, 4, 8, 6, 7, 3], [7, 8, 6, 3, 2, 9, 1, 5, 4],
      [6, 2, 4, 8, 9, 5, 7, 3, 1], [8, 5, 7, 4, 3, 1, 9, 2, 6], [9, 3, 1, 2, 7, 6, 4, 8, 5]]"

definition full_clues :: "int list list \<Rightarrow> (nat \<times> nat \<times> int) list" where
  "full_clues sol = map (\<lambda>(r, c). (r, c, sol ! r ! c)) (List.product [0..<9] [0..<9])"

lemma valid_first_solution: "valid_solution first_solution"
  by code_simp

lemma first_solution_meets: "meets first_solution first_moves"
  by code_simp

lemma first_moves_distinct: "distinct (map (\<lambda>(r, c, v). (r, c)) first_moves)"
  by code_simp

lemma meets_full_clues: "meets sol (full_clues sol)"
  by (auto simp: meets_def full_clues_def list_all_iff)

lemma distinct_full_clues: "distinct (map (\<lambda>(r, c, v). (r, c)) (full_clues sol))"
proof -
  have "map (\<lambda>(r, c, v). (r, c)) (full_clues sol) = List.product [0..<9] [0..<9]"
    unfolding full_clues_def by (simp add: comp_def case_prod_unfold)
  then show ?thesis by (simp add: distinct_product)
qed

lemma full_clues_unique:
  assumes "valid_solution sol" "valid_solution sol'" "meets sol' (full_clues sol)"
  shows "sol' = sol"
proof (rule nth_equalityI)
  show "length sol' = length sol" using assms(1,2) by (simp add: valid_solution_def)
next
  fix i assume "i < length sol'"
  with assms(2) have i: "i < 9" by (simp add: valid_solution_def)
  show "sol' ! i = sol ! i"
  proof (rule nth_equalityI)
    show "length (sol' ! i) = length (sol ! i)"
      using valid_solution_shape [OF assms(1) i] valid_solution_shape [OF assms(2) i] by simp
  next
    fix j assume "j < length (sol' ! i)"
    with valid_solution_shape [OF assms(2) i] have j: "j < 9" by simp
    with i have "(i, j, sol ! i ! j) \<in> set (full_clues sol)"
      by (auto simp: full_clues_def image_iff)
    with assms(3) show "sol' ! i ! j = sol ! i ! j" by (auto simp: meets_def list_all_iff)
  qed
qed

theorem C8_witness:
  "(\<exists>seed d b. updates first_moves Board_init = Inr seed
       \<and> DFS seed = Inr (Some d) \<and> BFS seed = Inr (Some b) \<and> goal_test d \<and> goal_test b)
   \<and> (\<exists>seed d b. updates (full_clues first_solution) Board_init = Inr seed
         \<and> DFS seed = Inr (Some d) \<and> BFS seed = Inr (Some b) \<and> goal_test d \<and> goal_test b
         \<and> d = b)"
proof -
  have unique: "\<forall>sol'. valid_solution sol' \<and> meets sol' (full_clues first_solution)
                  \<longrightarrow> sol' = first_solution"
    using full_clues_unique [OF valid_first_solution] by blast
  from C8_drivers_solve_solvable_puzzles
         [OF valid_first_solution first_solution_meets first_moves_distinct]
  have "\<exists>seed d b. updates first_moves Board_init = Inr seed
       \<and> DFS seed = Inr (Some d) \<and> BFS seed = Inr (Some b) \<and> goal_test d \<and> goal_test b"
    by blast
  moreover from C8_drivers_solve_solvable_puzzles
         [OF valid_first_solution meets_full_clues distinct_full_clues] unique
  have "\<exists>seed d b. updates (full_clues first_solution) Board_init = Inr seed
         \<and> DFS seed = Inr (Some d) \<and> BFS seed = Inr (Some b) \<and> goal_test d \<and> goal_test b
         \<and> d = b"
    by blast
  ultimately show ?thesis by blast
qed


section \<open>Boards as objects in a store\<close>

text \<open>
  The drivers copy a board with \<open>copy.deepcopy\<close> and then change the copy in place. Whether
  the original can be affected depends on which objects the two boards share, so here the
  board is laid out as Python lays it out: a \<open>Board\<close> object refers to the list \<open>rows\<close>,
  which refers to nine row lists, whose elements are integers or references to candidate
  lists. Objects live in a store, at addresses; \<open>next_addr\<close> is the next unused address.
\<close>

type_synonym addr = nat

datatype slot = IntS int | ListRef addr

datatype obj =
    CandObj "int list"
  | RowObj "slot list"
  | RowsObj "addr list"
  | BoardObj int addr
  | Blank

record store =
  heap :: "addr \<rightharpoonup> obj"
  next_addr :: addr

text \<open>
  A reference to no object, or to an object of another kind than the board layout has at
  that place, is \<open>BadObject\<close>; Python errors are kept as they are.
\<close>

datatype fault = Py error | BadObject

text \<open>
  Programs on a state that may raise: the state after a \<open>raise\<close> is the state reached so
  far, as a Python object stays changed by the statements that ran before an exception.
\<close>

type_synonym ('s, 'a) prog = "'s \<Rightarrow> (fault + 'a) \<times> 's"

definition ret :: "'a \<Rightarrow> ('s, 'a) prog" where
  "ret x = (\<lambda>s. (Inr x, s))"

definition raise :: "fault \<Rightarrow> ('s, 'a) prog" where
  "raise e = (\<lambda>s. (Inl e, s))"

definition bind :: "('s, 'a) prog \<Rightarrow> ('a \<Rightarrow> ('s, 'b) prog) \<Rightarrow> ('s, 'b) prog" where
  "bind f g = (\<lambda>s. case f s of (Inl e, s') \<Rightarrow> (Inl e, s') | (Inr x, s') \<Rightarrow> g x s')"

fun each :: "('a \<Rightarrow> ('s, unit) prog) \<Rightarrow> 'a list \<Rightarrow> ('s, unit) prog" where
  "each body [] = ret ()"
| "each body (x # xs) = bind (body x) (\<lambda>_. each body xs)"

fun map_prog :: "('a \<Rightarrow> ('s, 'b) prog) \<Rightarrow> 'a list \<Rightarrow> ('s, 'b list) prog" where
  "map_prog f [] = ret []"
| "map_prog f (x # xs) = bind (f x) (\<lambda>y. bind (map_prog f xs) (\<lambda>ys. ret (y # ys)))"

text \<open>Reading, writing and creating objects.\<close>

definition read_obj :: "addr \<Rightarrow> (store, obj) prog" where
  "read_obj a = (\<lambda>s. case heap s a of None \<Rightarrow> (Inl BadObject, s) | Some ob \<Rightarrow> (Inr ob, s))"

definition write_obj :: "addr \<Rightarrow> obj \<Rightarrow> (store, unit) prog" where
  "write_obj a ob = (\<lambda>s. (Inr (), s\<lparr>heap := (heap s)(a \<mapsto> ob)\<rparr>))"

definition alloc_obj :: "obj \<Rightarrow> (store, addr) prog" where
  "alloc_obj ob =
     (\<lambda>s. (Inr (next_addr s),
            s\<lparr>heap := (heap s)(next_addr s \<mapsto> ob), next_addr := Suc (next_addr s)\<rparr>))"

text \<open>The expressions \<open>self.rows[r]\<close> and \<open>self.rows[r][c]\<close> on the board at address \<open>b\<close>.\<close>

definition row_at :: "addr \<Rightarrow> nat \<Rightarrow> (store, addr) prog" where
  "row_at b r =
     bind (read_obj b) (\<lambda>ob. case ob of
       BoardObj n rows_ref \<Rightarrow>
         bind (read_obj rows_ref) (\<lambda>ob. case ob of
           RowsObj rs \<Rightarrow> if r < length rs then ret (rs ! r) else raise (Py IndexError)
         | _ \<Rightarrow> raise BadObject)
     | _ \<Rightarrow> raise BadObject)"

definition row_slots :: "addr \<Rightarrow> (store, slot list) prog" where
  "row_slots ra = bind (read_obj ra) (\<lambda>ob. case ob of RowObj slots \<Rightarrow> ret slots | _ \<Rightarrow> raise BadObject)"

definition slot_at :: "addr \<Rightarrow> nat \<Rightarrow> nat \<Rightarrow> (store, slot) prog" where
  "slot_at b r c =
     bind (row_at b r) (\<lambda>ra. bind (row_slots ra) (\<lambda>slots.
       if c < length slots then ret (slots ! c) else raise (Py IndexError)))"

text \<open>
  \<open>remove_if_exists\<close> on the value found in a square: a list object that contains the
  element is changed in place, through the reference.
\<close>

definition remove_if_exists_st :: "slot \<Rightarrow> int \<Rightarrow> (store, unit) prog" where
  "remove_if_exists_st lst elem =
     (case lst of
        IntS n \<Rightarrow> ret ()
      | ListRef a \<Rightarrow>
          bind (read_obj a) (\<lambda>ob. case ob of
            CandObj xs \<Rightarrow> if elem \<in> set xs then write_obj a (CandObj (remove1 elem xs)) else ret ()
          | _ \<Rightarrow> raise BadObject))"

definition eliminate_st :: "addr \<Rightarrow> int \<Rightarrow> nat \<times> nat \<Rightarrow> (store, unit) prog" where
  "eliminate_st b assignment rc =
     bind (slot_at b (fst rc) (snd rc)) (\<lambda>lst. remove_if_exists_st lst assignment)"

text \<open>\<open>Board.update\<close> on the board object at address \<open>b\<close>, statement by statement.\<close>

definition update_st :: "addr \<Rightarrow> nat \<Rightarrow> nat \<Rightarrow> int \<Rightarrow> (store, unit) prog" where
  "update_st b row column assignment =
     bind (row_at b row) (\<lambda>ra. bind (row_slots ra) (\<lambda>slots.
       if column < length slots then
         bind (write_obj ra (RowObj (slots[column := IntS assignment]))) (\<lambda>_.
         bind (read_obj b) (\<lambda>ob. case ob of
           BoardObj n rows_ref \<Rightarrow>
             bind (write_obj b (BoardObj (n + 1) rows_ref)) (\<lambda>_.
             bind (each (\<lambda>r. eliminate_st b assignment (r, column)) [0..<board_size]) (\<lambda>_.
             bind (each (\<lambda>c. eliminate_st b assignment (row, c)) [0..<board_size]) (\<lambda>_.
             each (eliminate_st b assignment) (subgrid_coordinates row column))))
         | _ \<Rightarrow> raise BadObject))
       else raise (Py IndexError)))"

text \<open>
  \<open>copy.deepcopy\<close> of a board. Integers are immutable and are not copied. Every list
  and the board object get a new object; the memo (old address to new address) makes an
  object that is reached twice be copied once, and a new object is entered in the memo
  before its elements are copied.
\<close>

type_synonym memo = "addr \<rightharpoonup> addr"

definition on_store :: "(store, 'a) prog \<Rightarrow> (store \<times> memo, 'a) prog" where
  "on_store f = (\<lambda>(s, m). case f s of (r, s') \<Rightarrow> (r, (s', m)))"

definition memo_lookup :: "addr \<Rightarrow> (store \<times> memo, addr option) prog" where
  "memo_lookup a = (\<lambda>(s, m). (Inr (m a), (s, m)))"

definition memo_enter :: "addr \<Rightarrow> addr \<Rightarrow> (store \<times> memo, unit) prog" where
  "memo_enter a a' = (\<lambda>(s, m). (Inr (), (s, m(a \<mapsto> a'))))"

definition copy_cand :: "addr \<Rightarrow> (store \<times> memo, addr) prog" where
  "copy_cand a =
     bind (memo_lookup a) (\<lambda>hit. case hit of
       Some a' \<Rightarrow> ret a'
     | None \<Rightarrow>
         bind (on_store (read_obj a)) (\<lambda>ob. case ob of
           CandObj xs \<Rightarrow>
             bind (on_store (alloc_obj (CandObj xs))) (\<lambda>a'.
             bind (memo_enter a a') (\<lambda>_. ret a'))
         | _ \<Rightarrow> raise BadObject))"

definition copy_slot :: "slot \<Rightarrow> (store \<times> memo, slot) prog" where
  "copy_slot x =
     (case x of
        IntS n \<Rightarrow> ret (IntS n)
      | ListRef a \<Rightarrow> bind (copy_cand a) (\<lambda>a'. ret (ListRef a')))"

definition copy_row :: "addr \<Rightarrow> (store \<times> memo, addr) prog" where
  "copy_row a =
     bind (memo_lookup a) (\<lambda>hit. case hit of
       Some a' \<Rightarrow> ret a'
     | None \<Rightarrow>
         bind (on_store (read_obj a)) (\<lambda>ob. case ob of
           RowObj slots \<Rightarrow>
             bind (on_store (alloc_obj (RowObj []))) (\<lambda>a'.
             bind (memo_enter a a') (\<lambda>_.
             bind (map_prog copy_slot slots) (\<lambda>slots'.
             bind (on_store (write_obj a' (RowObj slots'))) (\<lambda>_. ret a'))))
         | _ \<Rightarrow> raise BadObject))"

definition copy_rows :: "addr \<Rightarrow> (store \<times> memo, addr) prog" where
  "copy_rows a =
     bind (memo_lookup a) (\<lambda>hit. case hit of
       Some a' \<Rightarrow> ret a'
     | None \<Rightarrow>
         bind (on_store (read_obj a)) (\<lambda>ob. case ob of
           RowsObj rs \<Rightarrow>
             bind (on_store (alloc_obj (RowsObj []))) (\<lambda>a'.
             bind (memo_enter a a') (\<lambda>_.
             bind (map_prog copy_row rs) (\<lambda>rs'.
             bind (on_store (write_obj a' (RowsObj rs'))) (\<lambda>_. ret a'))))
         | _ \<Rightarrow> raise BadObject))"

definition copy_board :: "addr \<Rightarrow> (store \<times> memo, addr) prog" where
  "copy_board b =
     bind (on_store (read_obj b)) (\<lambda>ob. case ob of
       BoardObj n rows_ref \<Rightarrow>
         bind (on_store (alloc_obj Blank)) (\<lambda>b'.
         bind (memo_enter b b') (\<lambda>_.
         bind (copy_rows rows_ref) (\<lambda>rows_ref'.
         bind (on_store (write_obj b' (BoardObj n rows_ref'))) (\<lambda>_. ret b'))))
     | _ \<Rightarrow> raise BadObject)"

definition deepcopy_st :: "addr \<Rightarrow> (store, addr) prog" where
  "deepcopy_st b = (\<lambda>s. case copy_board b (s, Map.empty) of (r, (s', m)) \<Rightarrow> (r, s'))"

text \<open>The board that the object at an address stands for, when it is laid out as a board.\<close>

definition view_slot :: "store \<Rightarrow> slot \<Rightarrow> cell option" where
  "view_slot s x =
     (case x of
        IntS n \<Rightarrow> Some (Assigned n)
      | ListRef a \<Rightarrow> (case heap s a of Some (CandObj xs) \<Rightarrow> Some (Candidates xs) | _ \<Rightarrow> None))"

definition view_row :: "store \<Rightarrow> addr \<Rightarrow> cell list option" where
  "view_row s ra =
     (case heap s ra of Some (RowObj slots) \<Rightarrow> those (map (view_slot s) slots) | _ \<Rightarrow> None)"

definition view_board :: "store \<Rightarrow> addr \<Rightarrow> board option" where
  "view_board s b =
     (case heap s b of
        Some (BoardObj n rows_ref) \<Rightarrow>
          (case heap s rows_ref of
             Some (RowsObj rs) \<Rightarrow>
               (case those (map (view_row s) rs) of
                  Some g \<Rightarrow> Some \<lparr> num_nums_placed = n, rows = g \<rparr>
                | None \<Rightarrow> None)
           | _ \<Rightarrow> None)
      | _ \<Rightarrow> None)"

definition tiny :: store where
  "tiny = \<lparr> heap = [0 \<mapsto> BoardObj 0 1, 1 \<mapsto> RowsObj [2], 2 \<mapsto> RowObj [ListRef 3, ListRef 4],
                    3 \<mapsto> CandObj [1, 2], 4 \<mapsto> CandObj [1, 2]], next_addr = 5 \<rparr>"



subsection \<open>What a program keeps\<close>

definition keeps :: "('s \<Rightarrow> bool) \<Rightarrow> ('s, 'a) prog \<Rightarrow> ('a \<Rightarrow> bool) \<Rightarrow> bool" where
  "keeps I f P \<longleftrightarrow> (\<forall>s. I s \<longrightarrow> I (snd (f s)) \<and> (\<forall>x. fst (f s) = Inr x \<longrightarrow> P x))"

lemma keeps_ret: "P x \<Longrightarrow> keeps I (ret x) P"
  by (simp add: keeps_def ret_def)

lemma keeps_raise: "keeps I (raise e) P"
  by (simp add: keeps_def raise_def)

lemma keeps_bind:
  assumes "keeps I f P" and "\<And>x. P x \<Longrightarrow> keeps I (g x) Q"
  shows "keeps I (bind f g) Q"
  unfolding keeps_def
proof (intro allI impI)
  fix s assume s: "I s"
  obtain r s' where fs: "f s = (r, s')" by (cases "f s")
  from assms(1) s fs have s': "I s'" and r: "\<And>x. r = Inr x \<Longrightarrow> P x"
    by (auto simp: keeps_def)
  show "I (snd (bind f g s)) \<and> (\<forall>x. fst (bind f g s) = Inr x \<longrightarrow> Q x)"
  proof (cases r)
    case (Inl e)
    with fs s' show ?thesis by (simp add: bind_def)
  next
    case (Inr x)
    from assms(2) [OF r [OF Inr]] s' have "I (snd (g x s')) \<and> (\<forall>y. fst (g x s') = Inr y \<longrightarrow> Q y)"
      by (simp add: keeps_def)
    with fs Inr show ?thesis by (simp add: bind_def)
  qed
qed

lemma keeps_weaken: "keeps I f P \<Longrightarrow> (\<And>x. P x \<Longrightarrow> Q x) \<Longrightarrow> keeps I f Q"
  by (simp add: keeps_def)

lemma keeps_each:
  assumes "\<And>x. x \<in> set xs \<Longrightarrow> keeps I (body x) (\<lambda>_. True)"
  shows "keeps I (each body xs) (\<lambda>_. True)"
  using assms
proof (induction xs)
  case Nil
  show ?case by (simp add: keeps_ret)
next
  case (Cons x xs)
  show ?case
    by (simp, rule keeps_bind [where P = "\<lambda>_. True"]) (simp_all add: Cons)
qed

lemma keeps_map_prog:
  assumes "\<And>x. x \<in> set xs \<Longrightarrow> keeps I (f x) P"
  shows "keeps I (map_prog f xs) (list_all P)"
  using assms
proof (induction xs)
  case Nil
  show ?case by (simp add: keeps_ret)
next
  case (Cons x xs)
  show ?case
    apply simp
    apply (rule keeps_bind [where P = P])
     apply (simp add: Cons.prems)
    apply (rule keeps_bind [where P = "list_all P"])
     apply (simp add: Cons)
    apply (simp add: keeps_ret)
    done
qed

subsection \<open>Objects created after a point in time\<close>

fun obj_refs :: "obj \<Rightarrow> addr set" where
  "obj_refs (CandObj xs) = {}"
| "obj_refs (RowObj slots) = {a. ListRef a \<in> set slots}"
| "obj_refs (RowsObj rs) = set rs"
| "obj_refs (BoardObj n rows_ref) = {rows_ref}"
| "obj_refs Blank = {}"

text \<open>
  Relative to an earlier store \<open>s0\<close> whose next unused address was \<open>n\<close>: the objects that
  existed then are unchanged, and the objects created since refer to such objects only.
\<close>

definition apart :: "addr \<Rightarrow> store \<Rightarrow> store \<Rightarrow> bool" where
  "apart n s0 s \<longleftrightarrow>
     (\<forall>a < n. heap s a = heap s0 a)
     \<and> (\<forall>a ob. n \<le> a \<longrightarrow> heap s a = Some ob \<longrightarrow> (\<forall>a' \<in> obj_refs ob. n \<le> a'))"

lemma keeps_read_obj:
  "n \<le> a \<Longrightarrow> keeps (apart n s0) (read_obj a) (\<lambda>ob. \<forall>a' \<in> obj_refs ob. n \<le> a')"
  by (auto simp: keeps_def read_obj_def apart_def split: option.splits)

lemma keeps_write_obj:
  "n \<le> a \<Longrightarrow> \<forall>a' \<in> obj_refs ob. n \<le> a' \<Longrightarrow> keeps (apart n s0) (write_obj a ob) (\<lambda>_. True)"
  by (auto simp: keeps_def write_obj_def apart_def)

lemma keeps_row_at: "n \<le> b \<Longrightarrow> keeps (apart n s0) (row_at b r) (\<lambda>ra. n \<le> ra)"
  unfolding row_at_def
  apply (rule keeps_bind [OF keeps_read_obj], assumption)
  apply (simp split: obj.splits add: keeps_raise)
  apply (intro allI impI)
  apply (rule keeps_bind [OF keeps_read_obj], simp)
  apply (auto split: obj.splits simp: keeps_raise keeps_ret)
  done

lemma keeps_row_slots:
  "n \<le> ra \<Longrightarrow> keeps (apart n s0) (row_slots ra) (\<lambda>slots. \<forall>a. ListRef a \<in> set slots \<longrightarrow> n \<le> a)"
  unfolding row_slots_def
  apply (rule keeps_bind [OF keeps_read_obj], assumption)
  apply (auto split: obj.splits simp: keeps_raise keeps_ret)
  done

lemma keeps_slot_at:
  "n \<le> b \<Longrightarrow> keeps (apart n s0) (slot_at b r c) (\<lambda>x. \<forall>a. x = ListRef a \<longrightarrow> n \<le> a)"
  unfolding slot_at_def
  apply (rule keeps_bind [OF keeps_row_at], assumption)
  apply (rule keeps_bind [OF keeps_row_slots], assumption)
  apply (auto simp: keeps_raise intro!: keeps_ret)
  apply (metis nth_mem)
  done

lemma keeps_remove_if_exists_st:
  "\<forall>a. x = ListRef a \<longrightarrow> n \<le> a \<Longrightarrow> keeps (apart n s0) (remove_if_exists_st x v) (\<lambda>_. True)"
  unfolding remove_if_exists_st_def
  apply (cases x)
   apply (simp add: keeps_ret)
  apply simp
  apply (rule keeps_bind [OF keeps_read_obj], assumption)
  apply (auto split: obj.splits simp: keeps_raise keeps_ret keeps_write_obj)
  done

lemma keeps_eliminate_st: "n \<le> b \<Longrightarrow> keeps (apart n s0) (eliminate_st b v rc) (\<lambda>_. True)"
  unfolding eliminate_st_def
  apply (rule keeps_bind [OF keeps_slot_at], assumption)
  apply (rule keeps_remove_if_exists_st, assumption)
  done

lemma keeps_update_st:
  assumes "n \<le> b"
  shows "keeps (apart n s0) (update_st b row column v) (\<lambda>_. True)"
  unfolding update_st_def
  apply (rule keeps_bind [OF keeps_row_at [OF assms]])
  apply (rule keeps_bind [OF keeps_row_slots], assumption)
  apply (simp add: keeps_raise)
  apply (intro impI)
  apply (rule keeps_bind [where P = "\<lambda>_. True"])
   apply (rule keeps_write_obj, assumption)
   apply (auto dest: set_update_subset_insert [THEN subsetD])[1]
  apply (rule keeps_bind [OF keeps_read_obj [OF assms]])
  apply (simp split: obj.splits add: keeps_raise)
  apply (intro allI impI)
  apply (rule keeps_bind [where P = "\<lambda>_. True"])
   apply (rule keeps_write_obj [OF assms], simp)
  apply (rule keeps_bind [where P = "\<lambda>_. True"])
   apply (rule keeps_each, rule keeps_eliminate_st [OF assms])
  apply (rule keeps_bind [where P = "\<lambda>_. True"])
   apply (rule keeps_each, rule keeps_eliminate_st [OF assms])
  apply (rule keeps_each, rule keeps_eliminate_st [OF assms])
  done


text \<open>The same for the copying pass, whose memo holds new objects only.\<close>

definition apart_memo :: "addr \<Rightarrow> store \<Rightarrow> store \<times> memo \<Rightarrow> bool" where
  "apart_memo n s0 sm \<longleftrightarrow>
     apart n s0 (fst sm) \<and> n \<le> next_addr (fst sm) \<and> (\<forall>a a'. snd sm a = Some a' \<longrightarrow> n \<le> a')"

lemma keeps_on_store_read: "keeps (apart_memo n s0) (on_store (read_obj a)) (\<lambda>_. True)"
  by (auto simp: keeps_def on_store_def read_obj_def apart_memo_def split: option.splits)

lemma keeps_on_store_alloc:
  "\<forall>a' \<in> obj_refs ob. n \<le> a' \<Longrightarrow>
   keeps (apart_memo n s0) (on_store (alloc_obj ob)) (\<lambda>a'. n \<le> a')"
  by (auto simp: keeps_def on_store_def alloc_obj_def apart_memo_def apart_def)

lemma keeps_on_store_write:
  "n \<le> a \<Longrightarrow> \<forall>a' \<in> obj_refs ob. n \<le> a' \<Longrightarrow>
   keeps (apart_memo n s0) (on_store (write_obj a ob)) (\<lambda>_. True)"
  by (auto simp: keeps_def on_store_def write_obj_def apart_memo_def apart_def)

lemma keeps_memo_lookup:
  "keeps (apart_memo n s0) (memo_lookup a) (\<lambda>hit. \<forall>a'. hit = Some a' \<longrightarrow> n \<le> a')"
  by (auto simp: keeps_def memo_lookup_def apart_memo_def)

lemma keeps_memo_enter: "n \<le> a' \<Longrightarrow> keeps (apart_memo n s0) (memo_enter a a') (\<lambda>_. True)"
  by (auto simp: keeps_def memo_enter_def apart_memo_def)

lemma keeps_copy_cand: "keeps (apart_memo n s0) (copy_cand a) (\<lambda>a'. n \<le> a')"
  unfolding copy_cand_def
  apply (rule keeps_bind [OF keeps_memo_lookup])
  apply (simp split: option.splits add: keeps_ret)
  apply (intro impI)
  apply (rule keeps_bind [OF keeps_on_store_read])
  apply (simp split: obj.splits add: keeps_raise)
  apply (intro allI impI)
  apply (rule keeps_bind [OF keeps_on_store_alloc], simp)
  apply (rule keeps_bind [OF keeps_memo_enter], assumption)
  apply (simp add: keeps_ret)
  done

lemma keeps_copy_slot:
  "keeps (apart_memo n s0) (copy_slot x) (\<lambda>x'. \<forall>a. x' = ListRef a \<longrightarrow> n \<le> a)"
  unfolding copy_slot_def
  apply (cases x)
   apply (simp add: keeps_ret)
  apply simp
  apply (rule keeps_bind [OF keeps_copy_cand])
  apply (simp add: keeps_ret)
  done

lemma keeps_copy_row: "keeps (apart_memo n s0) (copy_row a) (\<lambda>a'. n \<le> a')"
  unfolding copy_row_def
  apply (rule keeps_bind [OF keeps_memo_lookup])
  apply (simp split: option.splits add: keeps_ret)
  apply (intro impI)
  apply (rule keeps_bind [OF keeps_on_store_read])
  apply (simp split: obj.splits add: keeps_raise)
  apply (intro allI impI)
  apply (rule keeps_bind [OF keeps_on_store_alloc], simp)
  apply (rule keeps_bind [OF keeps_memo_enter], assumption)
  apply (rule keeps_bind [OF keeps_map_prog [OF keeps_copy_slot]])
  apply (rule keeps_bind [OF keeps_on_store_write], assumption)
   apply (simp add: list_all_iff)
  apply (simp add: keeps_ret)
  done

lemma keeps_copy_rows: "keeps (apart_memo n s0) (copy_rows a) (\<lambda>a'. n \<le> a')"
  unfolding copy_rows_def
  apply (rule keeps_bind [OF keeps_memo_lookup])
  apply (simp split: option.splits add: keeps_ret)
  apply (intro impI)
  apply (rule keeps_bind [OF keeps_on_store_read])
  apply (simp split: obj.splits add: keeps_raise)
  apply (intro allI impI)
  apply (rule keeps_bind [OF keeps_on_store_alloc], simp)
  apply (rule keeps_bind [OF keeps_memo_enter], assumption)
  apply (rule keeps_bind [OF keeps_map_prog [OF keeps_copy_row]])
  apply (rule keeps_bind [OF keeps_on_store_write], assumption)
   apply (simp add: list_all_iff)
  apply (simp add: keeps_ret)
  done

lemma keeps_copy_board: "keeps (apart_memo n s0) (copy_board b) (\<lambda>b'. n \<le> b')"
  unfolding copy_board_def
  apply (rule keeps_bind [OF keeps_on_store_read])
  apply (simp split: obj.splits add: keeps_raise)
  apply (intro allI impI)
  apply (rule keeps_bind [OF keeps_on_store_alloc], simp)
  apply (rule keeps_bind [OF keeps_memo_enter], assumption)
  apply (rule keeps_bind [OF keeps_copy_rows])
  apply (rule keeps_bind [OF keeps_on_store_write], assumption)
   apply simp
  apply (simp add: keeps_ret)
  done

lemma deepcopy_st_apart:
  assumes "dom (heap s0) \<subseteq> {..<next_addr s0}" and "deepcopy_st b s0 = (r, s1)"
  shows "apart (next_addr s0) s0 s1 \<and> (\<forall>clone. r = Inr clone \<longrightarrow> next_addr s0 \<le> clone)"
proof -
  have init: "apart_memo (next_addr s0) s0 (s0, Map.empty)"
    using assms(1) by (auto simp: apart_memo_def apart_def)
  obtain r' s' m' where cb: "copy_board b (s0, Map.empty) = (r', (s', m'))"
    by (cases "copy_board b (s0, Map.empty)") auto
  from keeps_copy_board [of "next_addr s0" s0 b] init
  have "apart_memo (next_addr s0) s0 (snd (copy_board b (s0, Map.empty)))
        \<and> (\<forall>x. fst (copy_board b (s0, Map.empty)) = Inr x \<longrightarrow> next_addr s0 \<le> x)"
    unfolding keeps_def by blast
  with cb have "apart (next_addr s0) s0 s' \<and> (\<forall>x. r' = Inr x \<longrightarrow> next_addr s0 \<le> x)"
    by (simp add: apart_memo_def)
  moreover from assms(2) cb have "r = r'" "s1 = s'" by (simp_all add: deepcopy_st_def)
  ultimately show ?thesis by simp
qed


subsection \<open>The copy is a copy\<close>

lemma those_Some_iff: "those (map f xs) = Some ys \<longleftrightarrow> list_all2 (\<lambda>x y. f x = Some y) xs ys"
proof (induction xs arbitrary: ys)
  case Nil
  show ?case by auto
next
  case (Cons x xs)
  show ?case
    by (cases ys) (auto simp: Cons split: option.splits)
qed

text \<open>
  The state of a copying pass that started in store \<open>s0\<close>: old objects are unchanged, all
  objects lie below \<open>next_addr\<close>, and a candidate list in the memo has been copied.
\<close>

definition copying :: "store \<Rightarrow> store \<times> memo \<Rightarrow> bool" where
  "copying s0 sm \<longleftrightarrow>
     dom (heap s0) \<subseteq> {..<next_addr s0}
     \<and> (\<forall>a < next_addr s0. heap (fst sm) a = heap s0 a)
     \<and> next_addr s0 \<le> next_addr (fst sm)
     \<and> dom (heap (fst sm)) \<subseteq> {..<next_addr (fst sm)}
     \<and> (\<forall>a a'. snd sm a = Some a' \<longrightarrow> a' < next_addr (fst sm))
     \<and> (\<forall>a a' xs. snd sm a = Some a' \<longrightarrow> heap s0 a = Some (CandObj xs) \<longrightarrow>
           heap (fst sm) a' = Some (CandObj xs))"

text \<open>Every row in the memo, except those still being filled, has been copied.\<close>

definition rows_copied :: "store \<Rightarrow> addr set \<Rightarrow> store \<times> memo \<Rightarrow> bool" where
  "rows_copied s0 A sm \<longleftrightarrow>
     (\<forall>a a' cells. a \<notin> A \<longrightarrow> snd sm a = Some a' \<longrightarrow> view_row s0 a = Some cells \<longrightarrow>
        view_row (fst sm) a' = Some cells)"

text \<open>
  A later state of the pass: more objects, more memo entries that point to the new
  objects, nothing else.
\<close>

definition later :: "store \<times> memo \<Rightarrow> store \<times> memo \<Rightarrow> bool" where
  "later sm sm' \<longleftrightarrow>
     next_addr (fst sm) \<le> next_addr (fst sm')
     \<and> (\<forall>a < next_addr (fst sm). heap (fst sm') a = heap (fst sm) a)
     \<and> (\<forall>a a'. snd sm a = Some a' \<longrightarrow> snd sm' a = Some a')
     \<and> (\<forall>a a'. snd sm' a = Some a' \<longrightarrow> snd sm a = Some a' \<or> next_addr (fst sm) \<le> a')"

lemma later_refl: "later sm sm"
  by (simp add: later_def)

lemma later_trans:
  assumes "later sm1 sm2" "later sm2 sm3"
  shows "later sm1 sm3"
  unfolding later_def
proof (intro conjI allI impI)
  show "next_addr (fst sm1) \<le> next_addr (fst sm3)" using assms by (simp add: later_def)
next
  fix a assume "a < next_addr (fst sm1)"
  with assms show "heap (fst sm3) a = heap (fst sm1) a" by (simp add: later_def)
next
  fix a a' assume "snd sm1 a = Some a'"
  with assms show "snd sm3 a = Some a'" by (simp add: later_def)
next
  fix a a' assume "snd sm3 a = Some a'"
  with assms(2) have "snd sm2 a = Some a' \<or> next_addr (fst sm2) \<le> a'" by (simp add: later_def)
  then show "snd sm1 a = Some a' \<or> next_addr (fst sm1) \<le> a'"
  proof
    assume "snd sm2 a = Some a'"
    with assms(1) show ?thesis by (simp add: later_def)
  next
    assume "next_addr (fst sm2) \<le> a'"
    moreover from assms(1) have "next_addr (fst sm1) \<le> next_addr (fst sm2)"
      by (simp add: later_def)
    ultimately show ?thesis by simp
  qed
qed

lemma view_slot_stable:
  assumes "view_slot s x = Some cell" "dom (heap s) \<subseteq> {..<n}" "\<forall>a < n. heap s' a = heap s a"
  shows "view_slot s' x = Some cell"
proof (cases x)
  case (IntS i)
  with assms(1) show ?thesis by (simp add: view_slot_def)
next
  case (ListRef a)
  with assms(1) obtain xs where "heap s a = Some (CandObj xs)" "cell = Candidates xs"
    by (auto simp: view_slot_def split: option.splits obj.splits)
  moreover from this assms(2) have "a < n" by auto
  ultimately show ?thesis using assms(3) ListRef by (simp add: view_slot_def)
qed

lemma view_slots_stable:
  assumes "list_all2 (\<lambda>x y. view_slot s x = Some y) xs ys"
    "dom (heap s) \<subseteq> {..<n}" "\<forall>a < n. heap s' a = heap s a"
  shows "list_all2 (\<lambda>x y. view_slot s' x = Some y) xs ys"
  using assms(1)
  by (rule list_all2_mono) (rule view_slot_stable [OF _ assms(2,3)])

lemma view_row_stable:
  assumes "view_row s a = Some cells" "dom (heap s) \<subseteq> {..<n}" "\<forall>a < n. heap s' a = heap s a"
  shows "view_row s' a = Some cells"
proof -
  from assms(1) obtain slots where
    a: "heap s a = Some (RowObj slots)" and v: "those (map (view_slot s) slots) = Some cells"
    by (auto simp: view_row_def split: option.splits obj.splits)
  from a assms(2) have "a < n" by auto
  with a assms(3) have "heap s' a = Some (RowObj slots)" by simp
  moreover from v view_slots_stable [OF _ assms(2,3)]
  have "those (map (view_slot s') slots) = Some cells" by (simp add: those_Some_iff)
  ultimately show ?thesis by (simp add: view_row_def)
qed

lemma view_rows_stable:
  assumes "list_all2 (\<lambda>x y. view_row s x = Some y) xs ys"
    "dom (heap s) \<subseteq> {..<n}" "\<forall>a < n. heap s' a = heap s a"
  shows "list_all2 (\<lambda>x y. view_row s' x = Some y) xs ys"
  using assms(1)
  by (rule list_all2_mono) (rule view_row_stable [OF _ assms(2,3)])

lemma rows_copied_later:
  assumes "rows_copied s0 A (s, m)" "dom (heap s) \<subseteq> {..<next_addr s}"
    "\<forall>a < next_addr s. heap s' a = heap s a"
    "\<And>a. m' a \<noteq> m a \<Longrightarrow> a \<in> A \<or> view_row s0 a = None"
  shows "rows_copied s0 A (s', m')"
  unfolding rows_copied_def
proof (intro allI impI)
  fix a a' cells
  assume a: "a \<notin> A" "snd (s', m') a = Some a'" "view_row s0 a = Some cells"
  with assms(4) [of a] have "m' a = m a" by fastforce
  with a(2) have "m a = Some a'" by simp
  with assms(1) a have "view_row s a' = Some cells" by (simp add: rows_copied_def)
  from view_row_stable [OF this assms(2,3)] show "view_row (fst (s', m')) a' = Some cells" by simp
qed


lemma copy_cand_spec:
  assumes c: "copying s0 (s, m)" and rc: "rows_copied s0 A (s, m)"
    and src: "heap s0 a = Some (CandObj xs)"
  shows "\<exists>a' s' m'. copy_cand a (s, m) = (Inr a', (s', m'))
           \<and> copying s0 (s', m') \<and> rows_copied s0 A (s', m') \<and> later (s, m) (s', m')
           \<and> heap s' a' = Some (CandObj xs)"
proof (cases "m a")
  case (Some a')
  then have "copy_cand a (s, m) = (Inr a', (s, m))"
    by (simp add: copy_cand_def bind_def memo_lookup_def ret_def)
  moreover from c Some src have "heap s a' = Some (CandObj xs)"
    unfolding copying_def by auto
  ultimately show ?thesis using c rc later_refl by blast
next
  case None
  let ?a' = "next_addr s"
  let ?s' = "s\<lparr>heap := (heap s)(?a' \<mapsto> CandObj xs), next_addr := Suc ?a'\<rparr>"
  let ?m' = "m(a \<mapsto> ?a')"
  from c src have old: "a < next_addr s0" "heap s a = Some (CandObj xs)"
    unfolding copying_def by auto
  from None old have run: "copy_cand a (s, m) = (Inr ?a', (?s', ?m'))"
    by (simp add: copy_cand_def bind_def memo_lookup_def ret_def on_store_def read_obj_def
        alloc_obj_def memo_enter_def)
  from c have fresh: "heap s ?a' = None" unfolding copying_def by auto
  have c': "copying s0 (?s', ?m')"
    unfolding copying_def
  proof (intro conjI)
    show "dom (heap s0) \<subseteq> {..<next_addr s0}" using c by (simp add: copying_def)
    show "\<forall>x < next_addr s0. heap (fst (?s', ?m')) x = heap s0 x"
      using c by (auto simp: copying_def)
    show "next_addr s0 \<le> next_addr (fst (?s', ?m'))" using c by (simp add: copying_def)
    show "dom (heap (fst (?s', ?m'))) \<subseteq> {..<next_addr (fst (?s', ?m'))}"
      using c by (auto simp: copying_def less_Suc_eq)
    show "\<forall>x x'. snd (?s', ?m') x = Some x' \<longrightarrow> x' < next_addr (fst (?s', ?m'))"
      using c by (auto simp: copying_def less_Suc_eq)
    show "\<forall>x x' ys. snd (?s', ?m') x = Some x' \<longrightarrow> heap s0 x = Some (CandObj ys) \<longrightarrow>
            heap (fst (?s', ?m')) x' = Some (CandObj ys)"
      using c src by (auto simp: copying_def)
  qed
  have unchanged: "\<forall>x < next_addr s. heap ?s' x = heap s x" by simp
  have "rows_copied s0 A (?s', ?m')"
  proof (rule rows_copied_later [OF rc _ unchanged])
    show "dom (heap s) \<subseteq> {..<next_addr s}" using c by (simp add: copying_def)
  next
    fix x assume "?m' x \<noteq> m x"
    then have "x = a" by (auto split: if_splits)
    with src show "x \<in> A \<or> view_row s0 x = None" by (simp add: view_row_def)
  qed
  moreover have "later (s, m) (?s', ?m')" using None by (auto simp: later_def)
  ultimately show ?thesis using run c' by auto
qed

lemma copy_slot_spec:
  assumes c: "copying s0 (s, m)" and rc: "rows_copied s0 A (s, m)"
    and src: "view_slot s0 x = Some cell"
  shows "\<exists>x' s' m'. copy_slot x (s, m) = (Inr x', (s', m'))
           \<and> copying s0 (s', m') \<and> rows_copied s0 A (s', m') \<and> later (s, m) (s', m')
           \<and> view_slot s' x' = Some cell"
proof (cases x)
  case (IntS i)
  with src have "copy_slot x (s, m) = (Inr (IntS i), (s, m))" "view_slot s (IntS i) = Some cell"
    by (simp_all add: copy_slot_def ret_def view_slot_def)
  with c rc later_refl show ?thesis by blast
next
  case (ListRef a)
  with src obtain xs where xs: "heap s0 a = Some (CandObj xs)" "cell = Candidates xs"
    by (auto simp: view_slot_def split: option.splits obj.splits)
  from copy_cand_spec [OF c rc xs(1)] obtain a' s' m' where
    r: "copy_cand a (s, m) = (Inr a', (s', m'))" "copying s0 (s', m')"
       "rows_copied s0 A (s', m')" "later (s, m) (s', m')" "heap s' a' = Some (CandObj xs)"
    by blast
  from r(1) ListRef have "copy_slot x (s, m) = (Inr (ListRef a'), (s', m'))"
    by (simp add: copy_slot_def bind_def ret_def)
  moreover from r(5) xs(2) have "view_slot s' (ListRef a') = Some cell"
    by (simp add: view_slot_def)
  ultimately show ?thesis using r(2,3,4) by blast
qed

lemma copy_slots_spec:
  assumes "copying s0 (s, m)" and "rows_copied s0 A (s, m)"
    and "list_all2 (\<lambda>x cell. view_slot s0 x = Some cell) slots cells"
  shows "\<exists>slots' s' m'. map_prog copy_slot slots (s, m) = (Inr slots', (s', m'))
           \<and> copying s0 (s', m') \<and> rows_copied s0 A (s', m') \<and> later (s, m) (s', m')
           \<and> list_all2 (\<lambda>x' cell. view_slot s' x' = Some cell) slots' cells"
  using assms
proof (induction slots arbitrary: s m cells)
  case Nil
  then show ?case using later_refl by (auto simp: ret_def)
next
  case (Cons x slots)
  from Cons.prems(3) obtain cell rest where cells: "cells = cell # rest"
    "view_slot s0 x = Some cell" "list_all2 (\<lambda>x cell. view_slot s0 x = Some cell) slots rest"
    by (auto simp: list_all2_Cons1)
  from copy_slot_spec [OF Cons.prems(1,2) cells(2)] obtain x' s1 m1 where
    h: "copy_slot x (s, m) = (Inr x', (s1, m1))" "copying s0 (s1, m1)"
       "rows_copied s0 A (s1, m1)" "later (s, m) (s1, m1)" "view_slot s1 x' = Some cell"
    by blast
  from Cons.IH [OF h(2,3) cells(3)] obtain slots' s2 m2 where
    t: "map_prog copy_slot slots (s1, m1) = (Inr slots', (s2, m2))" "copying s0 (s2, m2)"
       "rows_copied s0 A (s2, m2)" "later (s1, m1) (s2, m2)"
       "list_all2 (\<lambda>x' cell. view_slot s2 x' = Some cell) slots' rest"
    by blast
  from h(1) t(1) have "map_prog copy_slot (x # slots) (s, m) = (Inr (x' # slots'), (s2, m2))"
    by (simp add: bind_def ret_def)
  moreover from h(2) t(4) have "view_slot s2 x' = Some cell"
    by (intro view_slot_stable [OF h(5)]) (auto simp: copying_def later_def)
  ultimately show ?case using t(2,3,5) later_trans [OF h(4) t(4)] cells(1) by auto
qed


lemma view_slot_write:
  assumes "view_slot s y = Some cell" "\<forall>xs. heap s w \<noteq> Some (CandObj xs)"
  shows "view_slot (s\<lparr>heap := (heap s)(w \<mapsto> ob)\<rparr>) y = Some cell"
  using assms by (cases y) (auto simp: view_slot_def split: option.splits obj.splits)

lemma view_row_write:
  assumes "view_row s x = Some cells" "x \<noteq> w" "\<forall>xs. heap s w \<noteq> Some (CandObj xs)"
  shows "view_row (s\<lparr>heap := (heap s)(w \<mapsto> ob)\<rparr>) x = Some cells"
proof -
  from assms(1) obtain slots where
    a: "heap s x = Some (RowObj slots)" and
    v: "list_all2 (\<lambda>y cell. view_slot s y = Some cell) slots cells"
    by (auto simp: view_row_def those_Some_iff split: option.splits obj.splits)
  from v have "list_all2 (\<lambda>y cell. view_slot (s\<lparr>heap := (heap s)(w \<mapsto> ob)\<rparr>) y = Some cell)
                 slots cells"
    by (rule list_all2_mono) (rule view_slot_write [OF _ assms(3)])
  with a assms(2) show ?thesis by (simp add: view_row_def those_Some_iff)
qed

lemma rows_copied_mono: "rows_copied s0 A sm \<Longrightarrow> A \<subseteq> B \<Longrightarrow> rows_copied s0 B sm"
  by (auto simp: rows_copied_def)

lemma copy_row_spec:
  assumes c: "copying s0 (s, m)" and rc: "rows_copied s0 {} (s, m)"
    and src: "view_row s0 a = Some cells"
  shows "\<exists>a' s' m'. copy_row a (s, m) = (Inr a', (s', m'))
           \<and> copying s0 (s', m') \<and> rows_copied s0 {} (s', m') \<and> later (s, m) (s', m')
           \<and> view_row s' a' = Some cells"
proof (cases "m a")
  case (Some a')
  then have "copy_row a (s, m) = (Inr a', (s, m))"
    by (simp add: copy_row_def bind_def memo_lookup_def ret_def)
  moreover from rc Some src have "view_row s a' = Some cells"
    by (simp add: rows_copied_def)
  ultimately show ?thesis using c rc later_refl by blast
next
  case None
  from src obtain slots where
    a0: "heap s0 a = Some (RowObj slots)" and
    v0: "list_all2 (\<lambda>x cell. view_slot s0 x = Some cell) slots cells"
    by (auto simp: view_row_def those_Some_iff split: option.splits obj.splits)
  from c a0 have old: "heap s a = Some (RowObj slots)" unfolding copying_def by auto
  let ?a' = "next_addr s"
  let ?s1 = "s\<lparr>heap := (heap s)(?a' \<mapsto> RowObj []), next_addr := Suc ?a'\<rparr>"
  let ?m1 = "m(a \<mapsto> ?a')"
  have c1: "copying s0 (?s1, ?m1)"
    unfolding copying_def
  proof (intro conjI)
    show "dom (heap s0) \<subseteq> {..<next_addr s0}" using c by (simp add: copying_def)
    show "\<forall>x < next_addr s0. heap (fst (?s1, ?m1)) x = heap s0 x"
      using c by (auto simp: copying_def)
    show "next_addr s0 \<le> next_addr (fst (?s1, ?m1))" using c by (simp add: copying_def)
    show "dom (heap (fst (?s1, ?m1))) \<subseteq> {..<next_addr (fst (?s1, ?m1))}"
      using c by (auto simp: copying_def less_Suc_eq)
    show "\<forall>x x'. snd (?s1, ?m1) x = Some x' \<longrightarrow> x' < next_addr (fst (?s1, ?m1))"
      using c by (auto simp: copying_def less_Suc_eq)
    show "\<forall>x x' ys. snd (?s1, ?m1) x = Some x' \<longrightarrow> heap s0 x = Some (CandObj ys) \<longrightarrow>
            heap (fst (?s1, ?m1)) x' = Some (CandObj ys)"
      using c a0 by (auto simp: copying_def)
  qed
  have rc1: "rows_copied s0 {a} (?s1, ?m1)"
  proof (rule rows_copied_later [OF rows_copied_mono [OF rc]])
    show "dom (heap s) \<subseteq> {..<next_addr s}" using c by (simp add: copying_def)
    show "\<forall>x < next_addr s. heap ?s1 x = heap s x" by simp
    show "\<And>x. ?m1 x \<noteq> m x \<Longrightarrow> x \<in> {a} \<or> view_row s0 x = None" by (auto split: if_splits)
  qed simp
  from copy_slots_spec [OF c1 rc1 v0] obtain slots' s2 m2 where
    t: "map_prog copy_slot slots (?s1, ?m1) = (Inr slots', (s2, m2))" "copying s0 (s2, m2)"
       "rows_copied s0 {a} (s2, m2)" "later (?s1, ?m1) (s2, m2)"
       "list_all2 (\<lambda>x' cell. view_slot s2 x' = Some cell) slots' cells"
    by blast
  let ?s3 = "s2\<lparr>heap := (heap s2)(?a' \<mapsto> RowObj slots')\<rparr>"
  from None old t(1) have run: "copy_row a (s, m) = (Inr ?a', (?s3, m2))"
    by (simp add: copy_row_def bind_def memo_lookup_def ret_def on_store_def read_obj_def
        alloc_obj_def memo_enter_def write_obj_def)
  from t(4) have placeholder: "heap s2 ?a' = Some (RowObj [])" and m2a: "m2 a = Some ?a'"
    and next2: "Suc ?a' \<le> next_addr s2"
    by (simp_all add: later_def)
  from c have n: "next_addr s0 \<le> ?a'" by (simp add: copying_def)
  have c3: "copying s0 (?s3, m2)"
    unfolding copying_def
  proof (intro conjI)
    show "dom (heap s0) \<subseteq> {..<next_addr s0}" using c by (simp add: copying_def)
    show "\<forall>x < next_addr s0. heap (fst (?s3, m2)) x = heap s0 x"
      using t(2) n by (auto simp: copying_def)
    show "next_addr s0 \<le> next_addr (fst (?s3, m2))" using t(2) by (simp add: copying_def)
    show "dom (heap (fst (?s3, m2))) \<subseteq> {..<next_addr (fst (?s3, m2))}"
      using t(2) next2 by (auto simp: copying_def)
    show "\<forall>x x'. snd (?s3, m2) x = Some x' \<longrightarrow> x' < next_addr (fst (?s3, m2))"
      using t(2) by (auto simp: copying_def)
    show "\<forall>x x' ys. snd (?s3, m2) x = Some x' \<longrightarrow> heap s0 x = Some (CandObj ys) \<longrightarrow>
            heap (fst (?s3, m2)) x' = Some (CandObj ys)"
      using t(2) placeholder by (auto simp: copying_def)
  qed
  have nocand: "\<forall>xs. heap s2 ?a' \<noteq> Some (CandObj xs)" using placeholder by simp
  have own: "view_row ?s3 ?a' = Some cells"
  proof -
    from t(5) have "list_all2 (\<lambda>x' cell. view_slot ?s3 x' = Some cell) slots' cells"
      by (rule list_all2_mono) (rule view_slot_write [OF _ nocand])
    then show ?thesis by (simp add: view_row_def those_Some_iff)
  qed
  have rc3: "rows_copied s0 {} (?s3, m2)"
    unfolding rows_copied_def
  proof (intro allI impI)
    fix x x' cs
    assume x: "snd (?s3, m2) x = Some x'" "view_row s0 x = Some cs"
    show "view_row (fst (?s3, m2)) x' = Some cs"
    proof (cases "x = a")
      case True
      with x m2a src own show ?thesis by simp
    next
      case False
      with t(3) x have v2: "view_row s2 x' = Some cs" by (simp add: rows_copied_def)
      from t(4) x(1) have "?m1 x = Some x' \<or> Suc ?a' \<le> x'" by (simp add: later_def)
      with False c have "x' \<noteq> ?a'" by (auto simp: copying_def)
      from view_row_write [OF v2 this nocand] show ?thesis by simp
    qed
  qed
  have l3: "later (s, m) (?s3, m2)"
    unfolding later_def
  proof (intro conjI allI impI)
    show "next_addr (fst (s, m)) \<le> next_addr (fst (?s3, m2))" using next2 by simp
  next
    fix x assume "x < next_addr (fst (s, m))"
    with t(4) show "heap (fst (?s3, m2)) x = heap (fst (s, m)) x" by (simp add: later_def)
  next
    fix x x' assume "snd (s, m) x = Some x'"
    with None have "?m1 x = Some x'" by auto
    with t(4) show "snd (?s3, m2) x = Some x'" by (simp add: later_def)
  next
    fix x x' assume "snd (?s3, m2) x = Some x'"
    with t(4) have "?m1 x = Some x' \<or> Suc ?a' \<le> x'" by (simp add: later_def)
    then show "snd (s, m) x = Some x' \<or> next_addr (fst (s, m)) \<le> x'"
      by (auto split: if_splits)
  qed
  from run c3 rc3 l3 own show ?thesis by blast
qed


lemma copy_row_list_spec:
  assumes "copying s0 (s, m)" and "rows_copied s0 {} (s, m)"
    and "list_all2 (\<lambda>a cells. view_row s0 a = Some cells) rs g"
  shows "\<exists>rs' s' m'. map_prog copy_row rs (s, m) = (Inr rs', (s', m'))
           \<and> copying s0 (s', m') \<and> rows_copied s0 {} (s', m') \<and> later (s, m) (s', m')
           \<and> list_all2 (\<lambda>a' cells. view_row s' a' = Some cells) rs' g"
  using assms
proof (induction rs arbitrary: s m g)
  case Nil
  then show ?case using later_refl by (auto simp: ret_def)
next
  case (Cons a rs)
  from Cons.prems(3) obtain cells rest where g: "g = cells # rest"
    "view_row s0 a = Some cells" "list_all2 (\<lambda>a cells. view_row s0 a = Some cells) rs rest"
    by (auto simp: list_all2_Cons1)
  from copy_row_spec [OF Cons.prems(1,2) g(2)] obtain a' s1 m1 where
    h: "copy_row a (s, m) = (Inr a', (s1, m1))" "copying s0 (s1, m1)"
       "rows_copied s0 {} (s1, m1)" "later (s, m) (s1, m1)" "view_row s1 a' = Some cells"
    by blast
  from Cons.IH [OF h(2,3) g(3)] obtain rs' s2 m2 where
    t: "map_prog copy_row rs (s1, m1) = (Inr rs', (s2, m2))" "copying s0 (s2, m2)"
       "rows_copied s0 {} (s2, m2)" "later (s1, m1) (s2, m2)"
       "list_all2 (\<lambda>a' cells. view_row s2 a' = Some cells) rs' rest"
    by blast
  from h(1) t(1) have "map_prog copy_row (a # rs) (s, m) = (Inr (a' # rs'), (s2, m2))"
    by (simp add: bind_def ret_def)
  moreover from h(2) t(4) have "view_row s2 a' = Some cells"
    by (intro view_row_stable [OF h(5)]) (auto simp: copying_def later_def)
  ultimately show ?case using t(2,3,5) later_trans [OF h(4) t(4)] g(1) by auto
qed

lemma copy_rows_spec:
  assumes c: "copying s0 (s, m)" and rc: "rows_copied s0 {} (s, m)"
    and src: "heap s0 a = Some (RowsObj rs)"
      "list_all2 (\<lambda>a cells. view_row s0 a = Some cells) rs g"
    and miss: "m a = None"
  shows "\<exists>a' rs' s' m'. copy_rows a (s, m) = (Inr a', (s', m'))
           \<and> copying s0 (s', m') \<and> later (s, m) (s', m')
           \<and> heap s' a' = Some (RowsObj rs')
           \<and> list_all2 (\<lambda>a' cells. view_row s' a' = Some cells) rs' g"
proof -
  from c src(1) have old: "heap s a = Some (RowsObj rs)" unfolding copying_def by auto
  let ?a' = "next_addr s"
  let ?s1 = "s\<lparr>heap := (heap s)(?a' \<mapsto> RowsObj []), next_addr := Suc ?a'\<rparr>"
  let ?m1 = "m(a \<mapsto> ?a')"
  have c1: "copying s0 (?s1, ?m1)"
    unfolding copying_def
  proof (intro conjI)
    show "dom (heap s0) \<subseteq> {..<next_addr s0}" using c by (simp add: copying_def)
    show "\<forall>x < next_addr s0. heap (fst (?s1, ?m1)) x = heap s0 x"
      using c by (auto simp: copying_def)
    show "next_addr s0 \<le> next_addr (fst (?s1, ?m1))" using c by (simp add: copying_def)
    show "dom (heap (fst (?s1, ?m1))) \<subseteq> {..<next_addr (fst (?s1, ?m1))}"
      using c by (auto simp: copying_def less_Suc_eq)
    show "\<forall>x x'. snd (?s1, ?m1) x = Some x' \<longrightarrow> x' < next_addr (fst (?s1, ?m1))"
      using c by (auto simp: copying_def less_Suc_eq)
    show "\<forall>x x' ys. snd (?s1, ?m1) x = Some x' \<longrightarrow> heap s0 x = Some (CandObj ys) \<longrightarrow>
            heap (fst (?s1, ?m1)) x' = Some (CandObj ys)"
      using c src(1) by (auto simp: copying_def)
  qed
  have rc1: "rows_copied s0 {} (?s1, ?m1)"
  proof (rule rows_copied_later [OF rc])
    show "dom (heap s) \<subseteq> {..<next_addr s}" using c by (simp add: copying_def)
    show "\<forall>x < next_addr s. heap ?s1 x = heap s x" by simp
    show "\<And>x. ?m1 x \<noteq> m x \<Longrightarrow> x \<in> {} \<or> view_row s0 x = None"
      using src(1) by (auto simp: view_row_def split: if_splits)
  qed
  from copy_row_list_spec [OF c1 rc1 src(2)] obtain rs' s2 m2 where
    t: "map_prog copy_row rs (?s1, ?m1) = (Inr rs', (s2, m2))" "copying s0 (s2, m2)"
       "rows_copied s0 {} (s2, m2)" "later (?s1, ?m1) (s2, m2)"
       "list_all2 (\<lambda>a' cells. view_row s2 a' = Some cells) rs' g"
    by blast
  let ?s3 = "s2\<lparr>heap := (heap s2)(?a' \<mapsto> RowsObj rs')\<rparr>"
  from miss old t(1) have run: "copy_rows a (s, m) = (Inr ?a', (?s3, m2))"
    by (simp add: copy_rows_def bind_def memo_lookup_def ret_def on_store_def read_obj_def
        alloc_obj_def memo_enter_def write_obj_def)
  from t(4) have placeholder: "heap s2 ?a' = Some (RowsObj [])"
    and next2: "Suc ?a' \<le> next_addr s2"
    by (simp_all add: later_def)
  from c have n: "next_addr s0 \<le> ?a'" by (simp add: copying_def)
  have c3: "copying s0 (?s3, m2)"
    unfolding copying_def
  proof (intro conjI)
    show "dom (heap s0) \<subseteq> {..<next_addr s0}" using c by (simp add: copying_def)
    show "\<forall>x < next_addr s0. heap (fst (?s3, m2)) x = heap s0 x"
      using t(2) n by (auto simp: copying_def)
    show "next_addr s0 \<le> next_addr (fst (?s3, m2))" using t(2) by (simp add: copying_def)
    show "dom (heap (fst (?s3, m2))) \<subseteq> {..<next_addr (fst (?s3, m2))}"
      using t(2) next2 by (auto simp: copying_def)
    show "\<forall>x x'. snd (?s3, m2) x = Some x' \<longrightarrow> x' < next_addr (fst (?s3, m2))"
      using t(2) by (auto simp: copying_def)
    show "\<forall>x x' ys. snd (?s3, m2) x = Some x' \<longrightarrow> heap s0 x = Some (CandObj ys) \<longrightarrow>
            heap (fst (?s3, m2)) x' = Some (CandObj ys)"
      using t(2) placeholder by (auto simp: copying_def)
  qed
  have nocand: "\<forall>xs. heap s2 ?a' \<noteq> Some (CandObj xs)" using placeholder by simp
  have views: "list_all2 (\<lambda>a' cells. view_row ?s3 a' = Some cells) rs' g"
    using t(5)
  proof (rule list_all2_mono)
    fix x cells assume v: "view_row s2 x = Some cells"
    with placeholder have "x \<noteq> ?a'" by (auto simp: view_row_def)
    from view_row_write [OF v this nocand] show "view_row ?s3 x = Some cells" .
  qed
  have l3: "later (s, m) (?s3, m2)"
    unfolding later_def
  proof (intro conjI allI impI)
    show "next_addr (fst (s, m)) \<le> next_addr (fst (?s3, m2))" using next2 by simp
  next
    fix x assume "x < next_addr (fst (s, m))"
    with t(4) show "heap (fst (?s3, m2)) x = heap (fst (s, m)) x" by (simp add: later_def)
  next
    fix x x' assume "snd (s, m) x = Some x'"
    with miss have "?m1 x = Some x'" by auto
    with t(4) show "snd (?s3, m2) x = Some x'" by (simp add: later_def)
  next
    fix x x' assume "snd (?s3, m2) x = Some x'"
    with t(4) have "?m1 x = Some x' \<or> Suc ?a' \<le> x'" by (simp add: later_def)
    then show "snd (s, m) x = Some x' \<or> next_addr (fst (s, m)) \<le> x'"
      by (auto split: if_splits)
  qed
  have "heap ?s3 ?a' = Some (RowsObj rs')" by simp
  with run c3 l3 views show ?thesis by blast
qed

lemma deepcopy_st_view:
  assumes d: "dom (heap s0) \<subseteq> {..<next_addr s0}" and v: "view_board s0 b = Some bd"
  shows "\<exists>b' s'. deepcopy_st b s0 = (Inr b', s') \<and> view_board s' b' = Some bd"
proof -
  from v obtain cnt rr rs g where
    b0: "heap s0 b = Some (BoardObj cnt rr)" and rr0: "heap s0 rr = Some (RowsObj rs)" and
    g: "list_all2 (\<lambda>a cells. view_row s0 a = Some cells) rs g" and
    bd: "bd = \<lparr> num_nums_placed = cnt, rows = g \<rparr>"
    by (auto simp: view_board_def those_Some_iff split: option.splits obj.splits)
  let ?b' = "next_addr s0"
  let ?s1 = "s0\<lparr>heap := (heap s0)(?b' \<mapsto> Blank), next_addr := Suc ?b'\<rparr>"
  let ?m1 = "[b \<mapsto> ?b']"
  have c1: "copying s0 (?s1, ?m1)"
    unfolding copying_def using d b0 by (auto simp: less_Suc_eq)
  have rc1: "rows_copied s0 {} (?s1, ?m1)"
    unfolding rows_copied_def using b0 by (auto simp: view_row_def)
  from b0 rr0 have "?m1 rr = None" by auto
  from copy_rows_spec [OF c1 rc1 rr0 g this] obtain rr' rs' s2 m2 where
    t: "copy_rows rr (?s1, ?m1) = (Inr rr', (s2, m2))" "copying s0 (s2, m2)"
       "later (?s1, ?m1) (s2, m2)" "heap s2 rr' = Some (RowsObj rs')"
       "list_all2 (\<lambda>a' cells. view_row s2 a' = Some cells) rs' g"
    by blast
  let ?s3 = "s2\<lparr>heap := (heap s2)(?b' \<mapsto> BoardObj cnt rr')\<rparr>"
  from b0 t(1) have run: "deepcopy_st b s0 = (Inr ?b', ?s3)"
    by (simp add: deepcopy_st_def copy_board_def bind_def ret_def on_store_def read_obj_def
        alloc_obj_def memo_enter_def write_obj_def)
  from t(3) have blank: "heap s2 ?b' = Some Blank" by (simp add: later_def)
  then have nocand: "\<forall>xs. heap s2 ?b' \<noteq> Some (CandObj xs)" by simp
  have views: "list_all2 (\<lambda>a' cells. view_row ?s3 a' = Some cells) rs' g"
    using t(5)
  proof (rule list_all2_mono)
    fix x cells assume vx: "view_row s2 x = Some cells"
    with blank have "x \<noteq> ?b'" by (auto simp: view_row_def)
    from view_row_write [OF vx this nocand] show "view_row ?s3 x = Some cells" .
  qed
  from blank t(4) have "rr' \<noteq> ?b'" by auto
  with t(4) views bd have "view_board ?s3 ?b' = Some bd"
    by (simp add: view_board_def those_Some_iff [THEN iffD2])
  with run show ?thesis by blast
qed

lemma view_board_stable:
  assumes "view_board s b = Some bd" "dom (heap s) \<subseteq> {..<n}" "\<forall>a < n. heap s' a = heap s a"
  shows "view_board s' b = Some bd"
proof -
  from assms(1) obtain cnt rr rs g where
    b0: "heap s b = Some (BoardObj cnt rr)" and rr0: "heap s rr = Some (RowsObj rs)" and
    g: "list_all2 (\<lambda>a cells. view_row s a = Some cells) rs g" and
    bd: "bd = \<lparr> num_nums_placed = cnt, rows = g \<rparr>"
    by (auto simp: view_board_def those_Some_iff split: option.splits obj.splits)
  from b0 rr0 assms(2) have "b < n" "rr < n" by auto
  with b0 rr0 assms(3) have "heap s' b = Some (BoardObj cnt rr)" "heap s' rr = Some (RowsObj rs)"
    by simp_all
  with view_rows_stable [OF g assms(2,3)] bd show ?thesis
    by (simp add: view_board_def those_Some_iff [THEN iffD2])
qed


subsection \<open>Changing the copy\<close>

text \<open>
  C4. Let the store hold a board at address \<open>original\<close>. \<open>copy.deepcopy\<close> returns a new
  board object that stands for the same board; whatever \<open>update\<close> is then applied to the
  copy, and however far it gets, the board at \<open>original\<close> is afterwards what it was before
  the copy was made: every square holds the same integer or the same candidate list, and
  the counter is the same.
\<close>

theorem C4_update_of_clone_leaves_original:
  assumes "dom (heap s0) \<subseteq> {..<next_addr s0}" and "view_board s0 original = Some bd"
  shows "\<exists>clone s1. deepcopy_st original s0 = (Inr clone, s1)
           \<and> clone \<noteq> original
           \<and> view_board s1 clone = Some bd
           \<and> view_board s1 original = Some bd
           \<and> (\<forall>r c v. view_board (snd (update_st clone r c v s1)) original = Some bd)"
proof -
  let ?n = "next_addr s0"
  from deepcopy_st_view [OF assms] obtain clone s1 where
    run: "deepcopy_st original s0 = (Inr clone, s1)" and copy: "view_board s1 clone = Some bd"
    by blast
  from deepcopy_st_apart [OF assms(1) run] have a1: "apart ?n s0 s1" and fresh: "?n \<le> clone"
    by simp_all
  from assms have "original < ?n" by (auto simp: view_board_def split: option.splits)
  with fresh have ne: "clone \<noteq> original" by simp
  have kept: "view_board s original = Some bd" if "apart ?n s0 s" for s
    using that by (intro view_board_stable [OF assms(2,1)]) (simp add: apart_def)
  have "view_board (snd (update_st clone r c v s1)) original = Some bd" for r c v
  proof -
    from keeps_update_st [OF fresh, of s0 r c v] a1
    have "apart ?n s0 (snd (update_st clone r c v s1))" by (simp add: keeps_def)
    then show ?thesis by (rule kept)
  qed
  with run ne copy kept [OF a1] show ?thesis by blast
qed

text \<open>A store with one board of one row and two squares.\<close>

definition small_store :: store where
  "small_store =
     \<lparr> heap = [0 \<mapsto> BoardObj 0 1, 1 \<mapsto> RowsObj [2], 2 \<mapsto> RowObj [ListRef 3, ListRef 4],
               3 \<mapsto> CandObj [1, 2], 4 \<mapsto> CandObj [1, 2]],
       next_addr = 5 \<rparr>"

lemma small_store_dom: "dom (heap small_store) \<subseteq> {..<next_addr small_store}"
  by (simp add: small_store_def)

lemma small_store_view:
  "view_board small_store 0
   = Some \<lparr> num_nums_placed = 0, rows = [[Candidates [1, 2], Candidates [1, 2]]] \<rparr>"
  by (simp add: small_store_def view_board_def view_row_def view_slot_def)

theorem C4_witness:
  "\<exists>clone s1. deepcopy_st 0 small_store = (Inr clone, s1)
     \<and> view_board s1 clone
         = Some \<lparr> num_nums_placed = 0, rows = [[Candidates [1, 2], Candidates [1, 2]]] \<rparr>
     \<and> view_board (snd (update_st clone 0 0 1 s1)) 0
         = Some \<lparr> num_nums_placed = 0, rows = [[Candidates [1, 2], Candidates [1, 2]]] \<rparr>"
  using C4_update_of_clone_leaves_original [OF small_store_dom small_store_view]
  by blast

end
